theory Spec2Isabelle
  imports Main "HOL-Library.Log_Nat" "HOL-Library.Multiset"
begin


section \<open>JavaScript numbers\<close>

text \<open>
  A JavaScript number is an IEEE 754 binary64 value. The finite ones are rationals, so a
  number is a \<^typ>\<open>rat\<close> and every arithmetic operation of the source is the exact
  operation followed by \<open>fl\<close>, the rounding to the nearest binary64 value (53 significant
  bits, ties to the even significand). The exponent range is not bounded: every value
  that \<open>colorUtils.js\<close> computes from bytes and from integers below \<open>2^53\<close> is zero or
  lies far inside the normal range, so neither overflow nor gradual underflow occurs.
  \<open>NaN\<close> only comes from \<open>parseInt\<close>; it is the \<open>None\<close> of \<open>parseInt16\<close> below.
\<close>

definition pow2 :: "int \<Rightarrow> rat" where
  "pow2 e = (if 0 \<le> e then 2 ^ nat e else 1 / 2 ^ nat (- e))"

text \<open>Rounding to the nearest integer, a tie going to the even one.\<close>

definition rne :: "rat \<Rightarrow> int" where
  "rne q = (let f = \<lfloor>q\<rfloor>; d = q - of_int f in
      if d < 1 / 2 then f else if 1 / 2 < d then f + 1 else if even f then f else f + 1)"

text \<open>The binary exponent of a non-zero number: \<open>2^e \<le> |x| < 2^(e+1)\<close>.\<close>

definition ilog2 :: "rat \<Rightarrow> int" where
  "ilog2 x = (let a = \<bar>x\<bar>;
                  e0 = (if 1 \<le> a then bitlen \<lfloor>a\<rfloor> - 1 else 1 - bitlen \<lfloor>1 / a\<rfloor>)
              in if pow2 e0 \<le> a then e0 else e0 - 1)"

definition fl :: "rat \<Rightarrow> rat" where
  "fl x = (if x = 0 then 0
           else let u = pow2 (ilog2 x - 52) in of_int (rne (x / u)) * u)"

text \<open>The binary64 values: a significand below \<open>2^53\<close> times a power of two.\<close>

definition representable :: "rat \<Rightarrow> bool" where
  "representable x \<longleftrightarrow> (\<exists>m k. \<bar>m\<bar> < 2 ^ 53 \<and> x = of_int m * pow2 k)"

definition fadd :: "rat \<Rightarrow> rat \<Rightarrow> rat" where "fadd x y = fl (x + y)"
definition fsub :: "rat \<Rightarrow> rat \<Rightarrow> rat" where "fsub x y = fl (x - y)"
definition fmul :: "rat \<Rightarrow> rat \<Rightarrow> rat" where "fmul x y = fl (x * y)"

text \<open>Division; the source divides by a non-zero number wherever it divides.\<close>

definition fdiv :: "rat \<Rightarrow> rat \<Rightarrow> rat" where "fdiv x y = fl (x / y)"

text \<open>
  The remainder operator \<open>%\<close>: the sign of the dividend, the quotient truncated towards
  zero. Its result is a binary64 value whenever its operands are, so it is not rounded.
\<close>

definition jsmod :: "rat \<Rightarrow> rat \<Rightarrow> rat" where
  "jsmod a b = (let q = a / b; t = (if 0 \<le> q then \<lfloor>q\<rfloor> else \<lceil>q\<rceil>) in a - b * of_int t)"

text \<open>\<open>Math.round\<close>: the nearest integer, a tie going up. This is \<^const>\<open>round\<close>.\<close>

definition Math_round :: "rat \<Rightarrow> int" where
  "Math_round x = round x"


section \<open>Strings\<close>

definition hexDigit :: "char \<Rightarrow> int option" where
  "hexDigit c = (let n = (of_char c :: nat) in
     if 48 \<le> n \<and> n \<le> 57 then Some (int n - 48)
     else if 65 \<le> n \<and> n \<le> 70 then Some (int n - 55)
     else if 97 \<le> n \<and> n \<le> 102 then Some (int n - 87)
     else None)"

text \<open>
  \<open>parseInt(str, 16)\<close> on a string of one or more hexadecimal digits. \<open>None\<close> stands for
  every other string: there the source goes on with \<open>NaN\<close> (no leading digit) or with the
  number that \<open>parseInt\<close> reads from a prefix (white space, a sign, \<open>0x\<close>, trailing
  characters), and neither is modelled.
\<close>

definition parseInt16 :: "string \<Rightarrow> int option" where
  "parseInt16 str =
     (if str \<noteq> [] \<and> list_all (\<lambda>c. hexDigit c \<noteq> None) str
      then Some (foldl (\<lambda>a c. 16 * a + the (hexDigit c)) 0 str) else None)"

text \<open>\<open>str.substr(start, len)\<close> for non-negative arguments.\<close>

definition substr :: "string \<Rightarrow> nat \<Rightarrow> nat \<Rightarrow> string" where
  "substr str start len = take len (drop start str)"

text \<open>\<open>n.toString(16)\<close> of an integer, then \<open>toUpperCase()\<close>.\<close>

definition hexChar :: "nat \<Rightarrow> char" where
  "hexChar d = ''0123456789ABCDEF'' ! d"

fun natToHex :: "nat \<Rightarrow> string" where
  "natToHex n = (if n < 16 then [hexChar n] else natToHex (n div 16) @ [hexChar (n mod 16)])"

declare natToHex.simps [simp del]

definition toString16 :: "int \<Rightarrow> string" where
  "toString16 n = (if n < 0 then CHR ''-'' # natToHex (nat (- n)) else natToHex (nat n))"

definition padStart2 :: "string \<Rightarrow> string" where
  "padStart2 str = replicate (2 - length str) CHR ''0'' @ str"


section \<open>Colour model conversion\<close>

record hsl =
  h :: int
  s :: int
  l :: int

text \<open>Lines 17 to 46 of \<open>hexToHsl\<close>, on the three parsed channels.\<close>

definition rgbToHsl :: "int \<Rightarrow> int \<Rightarrow> int \<Rightarrow> hsl" where
  "rgbToHsl R G B =
     (let r = fdiv (of_int R) 255;
          g = fdiv (of_int G) 255;
          b = fdiv (of_int B) 255;
          mx = max r (max g b);
          mn = min r (min g b);
          diff = fsub mx mn;
          l0 = fdiv (fadd mx mn) 2;
          s0 = (if diff \<noteq> 0
                then (if 1 / 2 < l0 then fdiv diff (fsub (fsub 2 mx) mn)
                      else fdiv diff (fadd mx mn))
                else 0);
          h0 = (if diff \<noteq> 0
                then fdiv (if mx = r then fadd (fdiv (fsub g b) diff) (if g < b then 6 else 0)
                           else if mx = g then fadd (fdiv (fsub b r) diff) 2
                           else if mx = b then fadd (fdiv (fsub r g) diff) 4
                           else 0) 6
                else 0)
      in \<lparr> h = Math_round (fmul h0 360),
           s = Math_round (fmul s0 100),
           l = Math_round (fmul l0 100) \<rparr>)"

text \<open>
  Lines 10 to 15 of \<open>hexToHsl\<close>, before the divisions by 255: the first \<open>#\<close> removed, the
  three channels parsed.
\<close>

definition hexChannels :: "string \<Rightarrow> (int \<times> int \<times> int) option" where
  "hexChannels hexstr =
     (let hx = remove1 CHR ''#'' hexstr in
      case (parseInt16 (substr hx 0 2), parseInt16 (substr hx 2 2), parseInt16 (substr hx 4 2)) of
        (Some R, Some G, Some B) \<Rightarrow> Some (R, G, B)
      | _ \<Rightarrow> None)"

definition hexToHsl :: "string \<Rightarrow> hsl option" where
  "hexToHsl hexstr =
     (case hexChannels hexstr of
        None \<Rightarrow> None
      | Some (R, G, B) \<Rightarrow> Some (rgbToHsl R G B))"

text \<open>Lines 384 to 410 of \<open>hslToHex\<close>: the three rounded channels.\<close>

definition hslToRgb :: "int \<Rightarrow> int \<Rightarrow> int \<Rightarrow> int \<times> int \<times> int" where
  "hslToRgb h1 s1 l1 =
     (let hh = fdiv (of_int h1) 360;
          ss = fdiv (of_int s1) 100;
          ll = fdiv (of_int l1) 100;
          c = fmul (fsub 1 \<bar>fsub (fmul 2 ll) 1\<bar>) ss;
          x = fmul c (fsub 1 \<bar>fsub (jsmod (fmul hh 6) 2) 1\<bar>);
          m = fsub ll (fdiv c 2);
          (r, g, b) =
            (if 0 \<le> hh \<and> hh < fdiv 1 6 then (c, x, 0)
             else if fdiv 1 6 \<le> hh \<and> hh < fdiv 2 6 then (x, c, 0)
             else if fdiv 2 6 \<le> hh \<and> hh < fdiv 3 6 then (0, c, x)
             else if fdiv 3 6 \<le> hh \<and> hh < fdiv 4 6 then (0, x, c)
             else if fdiv 4 6 \<le> hh \<and> hh < fdiv 5 6 then (x, 0, c)
             else if fdiv 5 6 \<le> hh \<and> hh < 1 then (c, 0, x)
             else (0, 0, 0))
      in (Math_round (fmul (fadd r m) 255),
          Math_round (fmul (fadd g m) 255),
          Math_round (fmul (fadd b m) 255)))"

text \<open>Line 412: the channels as two upper-case hexadecimal digits each, after \<open>#\<close>.\<close>

definition rgbToHex :: "int \<times> int \<times> int \<Rightarrow> string" where
  "rgbToHex rgb = (case rgb of (r, g, b) \<Rightarrow>
     CHR ''#'' # concat (map (\<lambda>x. padStart2 (toString16 x)) [r, g, b]))"

definition hslToHex :: "int \<Rightarrow> int \<Rightarrow> int \<Rightarrow> string" where
  "hslToHex h1 s1 l1 = rgbToHex (hslToRgb h1 s1 l1)"



section \<open>Colours of a collection\<close>

text \<open>
  A colour is an object with a \<open>hex\<close> string and a \<open>name\<close>; whatever else it carries is
  kept by the searches (\<open>{...color, hueDiff: d}\<close> copies every attribute and then writes
  \<open>hueDiff\<close>). The two attributes the searches write are fields of the record, absent as
  \<open>None\<close>; a record of the caller may already carry them, as the records that an earlier
  search returned do. Every other attribute is in the extension slot of the record.
\<close>

record color =
  hex :: string
  name :: string
  hueDiff :: "int option"
  lightnessDiff :: "int option"

text \<open>
  The distance of two hues on the circle, which the source writes out at every use as
  \<open>Math.min(Math.abs(a - b), 360 - Math.abs(a - b))\<close>.
\<close>

definition hueDistance :: "int \<Rightarrow> int \<Rightarrow> int" where
  "hueDistance a b = min \<bar>a - b\<bar> (360 - \<bar>a - b\<bar>)"


text \<open>
  The hue and the lightness that \<open>hexToHsl\<close> gives a colour of the collection, for the
  statements below; they are read only where the string of the colour converts.
\<close>

definition hueOf :: "'a color_scheme \<Rightarrow> int" where
  "hueOf c = h (the (hexToHsl (hex c)))"

definition lightnessOf :: "'a color_scheme \<Rightarrow> int" where
  "lightnessOf c = l (the (hexToHsl (hex c)))"


section \<open>Sorting\<close>

text \<open>
  \<open>Array.prototype.sort\<close> with a comparator. The comparators of the source subtract two
  attributes, so they yield \<open>NaN\<close> (here \<open>None\<close>) when one of them is absent; the sort reads
  \<open>NaN\<close> as \<open>+0\<close>, that is as "equal". The sort is stable. It is modelled as insertion from
  left to right in which an element moves in front of an earlier one only when the
  comparator is negative; on a comparator that is a consistent order every stable sort
  returns this list.
\<close>

definition negative :: "int option \<Rightarrow> bool" where
  "negative v = (case v of None \<Rightarrow> False | Some n \<Rightarrow> n < 0)"

fun insertSorted :: "('a \<Rightarrow> 'a \<Rightarrow> int option) \<Rightarrow> 'a \<Rightarrow> 'a list \<Rightarrow> 'a list" where
  "insertSorted cmp x [] = [x]"
| "insertSorted cmp x (y # ys) =
     (if negative (cmp x y) then x # y # ys else y # insertSorted cmp x ys)"

definition js_sort :: "('a \<Rightarrow> 'a \<Rightarrow> int option) \<Rightarrow> 'a list \<Rightarrow> 'a list" where
  "js_sort cmp xs = foldl (\<lambda>sorted x. insertSorted cmp x sorted) [] xs"

text \<open>The comparators \<open>(a, b) => a.hueDiff - b.hueDiff\<close> and its lightness twin.\<close>

definition byHueDiff :: "'a color_scheme \<Rightarrow> 'a color_scheme \<Rightarrow> int option" where
  "byHueDiff a b = (case (hueDiff a, hueDiff b) of (Some x, Some y) \<Rightarrow> Some (x - y) | _ \<Rightarrow> None)"

definition byLightnessDiff :: "'a color_scheme \<Rightarrow> 'a color_scheme \<Rightarrow> int option" where
  "byLightnessDiff a b =
     (case (lightnessDiff a, lightnessDiff b) of (Some x, Some y) \<Rightarrow> Some (x - y) | _ \<Rightarrow> None)"


text \<open>A comparator that subtracts one attribute of its arguments.\<close>

definition keyed :: "('a \<Rightarrow> int option) \<Rightarrow> ('a \<Rightarrow> 'a \<Rightarrow> int option) \<Rightarrow> bool" where
  "keyed key cmp \<longleftrightarrow>
     (\<forall>a b. cmp a b = (case (key a, key b) of (Some x, Some y) \<Rightarrow> Some (x - y) | _ \<Rightarrow> None))"


section \<open>Harmony search\<close>

text \<open>
  \<open>array.forEach(callback)\<close>, the callback filling an array that it closes over: the
  callback takes the array and returns the array it leaves. A conversion of a string
  outside the domain of \<open>hexToHsl\<close> ends the loop with \<open>None\<close>.
\<close>

fun forEach :: "('a \<Rightarrow> 's \<Rightarrow> 's option) \<Rightarrow> 'a list \<Rightarrow> 's \<Rightarrow> 's option" where
  "forEach callback [] st = Some st"
| "forEach callback (x # xs) st =
     (case callback x st of None \<Rightarrow> None | Some st' \<Rightarrow> forEach callback xs st')"

definition analogousStep ::
  "hsl \<Rightarrow> 'a color_scheme \<Rightarrow> 'a color_scheme list \<Rightarrow> 'a color_scheme list option" where
  "analogousStep baseHsl color analogousColors =
     (case hexToHsl (hex color) of
        None \<Rightarrow> None
      | Some colorHsl \<Rightarrow>
          let d = min \<bar>h colorHsl - h baseHsl\<bar> (360 - \<bar>h colorHsl - h baseHsl\<bar>) in
          if d \<le> 60 then Some (analogousColors @ [color\<lparr>hueDiff := Some d\<rparr>])
          else Some analogousColors)"

definition findAnalogousColorsFromCollection ::
  "'a color_scheme list \<Rightarrow> string \<Rightarrow> nat \<Rightarrow> 'a color_scheme list option" where
  "findAnalogousColorsFromCollection colors baseHex cnt =
     (case hexToHsl baseHex of
        None \<Rightarrow> None
      | Some baseHsl \<Rightarrow>
          (case forEach (analogousStep baseHsl) colors [] of
             None \<Rightarrow> None
           | Some analogousColors \<Rightarrow> Some (take cnt (js_sort byHueDiff analogousColors))))"

text \<open>\<open>colors.find(c => c.hex === baseHex)\<close>, pushed when it is found.\<close>

definition pushBase :: "'a color_scheme list \<Rightarrow> string \<Rightarrow> 'a color_scheme list" where
  "pushBase colors baseHex =
     (case find (\<lambda>c. hex c = baseHex) colors of None \<Rightarrow> [] | Some baseColor \<Rightarrow> [baseColor])"

definition complementaryStep ::
  "string \<Rightarrow> int \<Rightarrow> 'a color_scheme \<Rightarrow> 'a color_scheme list \<Rightarrow> 'a color_scheme list option" where
  "complementaryStep baseHex complementaryHue color complementaryColors =
     (if hex color = baseHex then Some complementaryColors
      else case hexToHsl (hex color) of
        None \<Rightarrow> None
      | Some colorHsl \<Rightarrow>
          let d = min \<bar>h colorHsl - complementaryHue\<bar> (360 - \<bar>h colorHsl - complementaryHue\<bar>) in
          if d \<le> 45 then Some (complementaryColors @ [color\<lparr>hueDiff := Some d\<rparr>])
          else Some complementaryColors)"

definition similarStep ::
  "string \<Rightarrow> hsl \<Rightarrow> 'a color_scheme \<Rightarrow> 'a color_scheme list \<Rightarrow> 'a color_scheme list option" where
  "similarStep baseHex baseHsl color complementaryColors =
     (if hex color = baseHex then Some complementaryColors
      else if find (\<lambda>c. hex c = hex color) complementaryColors \<noteq> None
      then Some complementaryColors
      else case hexToHsl (hex color) of
        None \<Rightarrow> None
      | Some colorHsl \<Rightarrow>
          let d = min \<bar>h colorHsl - h baseHsl\<bar> (360 - \<bar>h colorHsl - h baseHsl\<bar>) in
          if d \<le> 30 then Some (complementaryColors @ [color\<lparr>hueDiff := Some (d + 1000)\<rparr>])
          else Some complementaryColors)"

definition findComplementaryColorsFromCollection ::
  "'a color_scheme list \<Rightarrow> string \<Rightarrow> nat \<Rightarrow> 'a color_scheme list option" where
  "findComplementaryColorsFromCollection colors baseHex cnt =
     (case hexToHsl baseHex of
        None \<Rightarrow> None
      | Some baseHsl \<Rightarrow>
          let complementaryHue = (h baseHsl + 180) mod 360 in
          (case forEach (complementaryStep baseHex complementaryHue) colors
                  (pushBase colors baseHex) of
             None \<Rightarrow> None
           | Some nearComplement \<Rightarrow>
               (case forEach (similarStep baseHex baseHsl) colors nearComplement of
                  None \<Rightarrow> None
                | Some complementaryColors \<Rightarrow>
                    Some (take cnt (js_sort byHueDiff complementaryColors)))))"

definition triadicStep ::
  "string \<Rightarrow> hsl \<Rightarrow> int \<Rightarrow> int \<Rightarrow> 'a color_scheme \<Rightarrow> 'a color_scheme list
     \<Rightarrow> 'a color_scheme list option" where
  "triadicStep baseHex baseHsl triadic1 triadic2 color triadicColors =
     (if hex color = baseHex then Some triadicColors
      else case hexToHsl (hex color) of
        None \<Rightarrow> None
      | Some colorHsl \<Rightarrow>
          let diff1 = min \<bar>h colorHsl - triadic1\<bar> (360 - \<bar>h colorHsl - triadic1\<bar>);
              diff2 = min \<bar>h colorHsl - triadic2\<bar> (360 - \<bar>h colorHsl - triadic2\<bar>);
              diff3 = min \<bar>h colorHsl - h baseHsl\<bar> (360 - \<bar>h colorHsl - h baseHsl\<bar>);
              minDiff = min diff1 (min diff2 diff3) in
          if minDiff \<le> 45 then Some (triadicColors @ [color\<lparr>hueDiff := Some minDiff\<rparr>])
          else Some triadicColors)"

definition findTriadicColorsFromCollection ::
  "'a color_scheme list \<Rightarrow> string \<Rightarrow> nat \<Rightarrow> 'a color_scheme list option" where
  "findTriadicColorsFromCollection colors baseHex cnt =
     (case hexToHsl baseHex of
        None \<Rightarrow> None
      | Some baseHsl \<Rightarrow>
          let triadic1 = (h baseHsl + 120) mod 360;
              triadic2 = (h baseHsl + 240) mod 360 in
          (case forEach (triadicStep baseHex baseHsl triadic1 triadic2) colors
                  (pushBase colors baseHex) of
             None \<Rightarrow> None
           | Some triadicColors \<Rightarrow> Some (take cnt (js_sort byHueDiff triadicColors))))"

definition monochromaticStep ::
  "hsl \<Rightarrow> 'a color_scheme \<Rightarrow> 'a color_scheme list \<Rightarrow> 'a color_scheme list option" where
  "monochromaticStep baseHsl color monochromaticColors =
     (case hexToHsl (hex color) of
        None \<Rightarrow> None
      | Some colorHsl \<Rightarrow>
          let d = min \<bar>h colorHsl - h baseHsl\<bar> (360 - \<bar>h colorHsl - h baseHsl\<bar>) in
          if d \<le> 15
          then Some (monochromaticColors @
                 [color\<lparr>lightnessDiff := Some \<bar>l colorHsl - l baseHsl\<bar>\<rparr>])
          else Some monochromaticColors)"

definition findMonochromaticColorsFromCollection ::
  "'a color_scheme list \<Rightarrow> string \<Rightarrow> nat \<Rightarrow> 'a color_scheme list option" where
  "findMonochromaticColorsFromCollection colors baseHex cnt =
     (case hexToHsl baseHex of
        None \<Rightarrow> None
      | Some baseHsl \<Rightarrow>
          (case forEach (monochromaticStep baseHsl) colors [] of
             None \<Rightarrow> None
           | Some monochromaticColors \<Rightarrow>
               Some (take cnt (js_sort byLightnessDiff monochromaticColors))))"

definition splitStep ::
  "string \<Rightarrow> hsl \<Rightarrow> int \<Rightarrow> int \<Rightarrow> 'a color_scheme \<Rightarrow> 'a color_scheme list
     \<Rightarrow> 'a color_scheme list option" where
  "splitStep baseHex baseHsl comp1 comp2 color splitColors =
     (if hex color = baseHex then Some splitColors
      else case hexToHsl (hex color) of
        None \<Rightarrow> None
      | Some colorHsl \<Rightarrow>
          let diff1 = min \<bar>h colorHsl - comp1\<bar> (360 - \<bar>h colorHsl - comp1\<bar>);
              diff2 = min \<bar>h colorHsl - comp2\<bar> (360 - \<bar>h colorHsl - comp2\<bar>);
              diffBase = min \<bar>h colorHsl - h baseHsl\<bar> (360 - \<bar>h colorHsl - h baseHsl\<bar>);
              minDiff = min diff1 (min diff2 diffBase) in
          if minDiff \<le> 30 then Some (splitColors @ [color\<lparr>hueDiff := Some minDiff\<rparr>])
          else Some splitColors)"

definition findSplitComplementaryFromCollection ::
  "'a color_scheme list \<Rightarrow> string \<Rightarrow> nat \<Rightarrow> 'a color_scheme list option" where
  "findSplitComplementaryFromCollection colors baseHex cnt =
     (case hexToHsl baseHex of
        None \<Rightarrow> None
      | Some baseHsl \<Rightarrow>
          let comp1 = (h baseHsl + 150) mod 360;
              comp2 = (h baseHsl + 210) mod 360 in
          (case forEach (splitStep baseHex baseHsl comp1 comp2) colors
                  (pushBase colors baseHex) of
             None \<Rightarrow> None
           | Some splitColors \<Rightarrow> Some (take cnt (js_sort byHueDiff splitColors))))"


section \<open>Suggestion aggregator\<close>

datatype suggestionType = analogous | complementary | triadic

text \<open>
  A suggestion. Its field \<open>name\<close> is \<open>label\<close> here, a colour having a \<open>name\<close> already;
  the accented letter of the Spanish labels is the character 225.
\<close>

record 'a suggestion =
  label :: string
  type :: suggestionType
  baseColor :: "'a color_scheme"
  colors :: "'a color_scheme list"

text \<open>
  The callback of \<open>baseColors.forEach((baseColor, index) => ...)\<close>, on the pair of the
  index and the colour.
\<close>

definition suggestStep ::
  "'a color_scheme list \<Rightarrow> nat \<times> 'a color_scheme \<Rightarrow> 'a suggestion list
     \<Rightarrow> 'a suggestion list option" where
  "suggestStep allColors indexed suggestions =
     (case indexed of (index, base) \<Rightarrow>
      (case (if index < 3
             then map_option
                    (\<lambda>found. suggestions @
                       [\<lparr>label = ''An'' @ [char_of (225 :: nat)] @ ''loga desde '' @ name base,
                         type = analogous, baseColor = base, colors = found\<rparr>])
                    (findAnalogousColorsFromCollection allColors (hex base) 5)
             else Some suggestions) of
         None \<Rightarrow> None
       | Some suggestions1 \<Rightarrow>
      (case (if index < 2
             then map_option
                    (\<lambda>found. suggestions1 @
                       [\<lparr>label = ''Complementaria desde '' @ name base,
                         type = complementary, baseColor = base, colors = found\<rparr>])
                    (findComplementaryColorsFromCollection allColors (hex base) 4)
             else Some suggestions1) of
         None \<Rightarrow> None
       | Some suggestions2 \<Rightarrow>
             (if index < 2
              then map_option
                     (\<lambda>found. suggestions2 @
                        [\<lparr>label = ''Tri'' @ [char_of (225 :: nat)] @ ''dica desde '' @ name base,
                          type = triadic, baseColor = base, colors = found\<rparr>])
                     (findTriadicColorsFromCollection allColors (hex base) 6)
              else Some suggestions2))))"

definition generateSmartPaletteSuggestions ::
  "'a color_scheme list \<Rightarrow> 'a suggestion list option" where
  "generateSmartPaletteSuggestions allColors =
     (if length allColors < 3 then Some []
      else let baseColors = take (min 5 (length allColors)) allColors in
           case forEach (suggestStep allColors) (enumerate 0 baseColors) [] of
             None \<Rightarrow> None
           | Some suggestions \<Rightarrow> Some (filter (\<lambda>s. 3 \<le> length (colors s)) suggestions))"


section \<open>The colours that qualify\<close>

text \<open>
  The table of the specification, relation by relation: the colours of the collection that
  qualify for a search, each with its score. They are what the loops are compared with.
\<close>

definition analogousMatches :: "hsl \<Rightarrow> 'a color_scheme list \<Rightarrow> 'a color_scheme list" where
  "analogousMatches baseHsl cs =
     map (\<lambda>c. c\<lparr>hueDiff := Some (hueDistance (hueOf c) (h baseHsl))\<rparr>)
       (filter (\<lambda>c. hueDistance (hueOf c) (h baseHsl) \<le> 60) cs)"

definition monochromaticMatches :: "hsl \<Rightarrow> 'a color_scheme list \<Rightarrow> 'a color_scheme list" where
  "monochromaticMatches baseHsl cs =
     map (\<lambda>c. c\<lparr>lightnessDiff := Some \<bar>lightnessOf c - l baseHsl\<bar>\<rparr>)
       (filter (\<lambda>c. hueDistance (hueOf c) (h baseHsl) \<le> 15) cs)"

definition primaryMatches :: "string \<Rightarrow> hsl \<Rightarrow> 'a color_scheme list \<Rightarrow> 'a color_scheme list" where
  "primaryMatches baseHex baseHsl cs =
     map (\<lambda>c. c\<lparr>hueDiff := Some (hueDistance (hueOf c) ((h baseHsl + 180) mod 360))\<rparr>)
       (filter (\<lambda>c. hex c \<noteq> baseHex
                  \<and> hueDistance (hueOf c) ((h baseHsl + 180) mod 360) \<le> 45) cs)"

text \<open>
  The base colour of a search, as the specification words it: the record of the
  collection with the base \<open>hex\<close> string, the first one when there are several, none when
  there is none.
\<close>

definition baseRecord :: "'a color_scheme list \<Rightarrow> string \<Rightarrow> 'a color_scheme list" where
  "baseRecord cs baseHex = take 1 (filter (\<lambda>c. hex c = baseHex) cs)"

text \<open>
  A scan that "excludes colours already selected": it goes through the colours in order and
  takes a colour unless its \<open>hex\<close> string is among those selected, earlier in the scan or
  before it.
\<close>

primrec unselected :: "string list \<Rightarrow> 'a color_scheme list \<Rightarrow> 'a color_scheme list" where
  "unselected selected [] = []"
| "unselected selected (c # cs) =
     (if hex c \<in> set selected then unselected selected cs
      else c # unselected (selected @ [hex c]) cs)"

text \<open>
  The fallback matches of the complementary search: the colours within 30 degrees of the
  base hue, the base \<open>hex\<close> excluded, that the base record and the primary matches have not
  selected, annotated with the distance plus 1000.
\<close>

definition fallbackMatches :: "string \<Rightarrow> hsl \<Rightarrow> 'a color_scheme list \<Rightarrow> 'a color_scheme list" where
  "fallbackMatches baseHex baseHsl cs =
     map (\<lambda>c. c\<lparr>hueDiff := Some (hueDistance (hueOf c) (h baseHsl) + 1000)\<rparr>)
       (unselected (map hex (baseRecord cs baseHex @ primaryMatches baseHex baseHsl cs))
          (filter (\<lambda>c. hex c \<noteq> baseHex \<and> hueDistance (hueOf c) (h baseHsl) \<le> 30) cs))"

definition nearestOfThree :: "int \<Rightarrow> int \<Rightarrow> hsl \<Rightarrow> 'a color_scheme \<Rightarrow> int" where
  "nearestOfThree hue1 hue2 baseHsl c =
     min (hueDistance (hueOf c) hue1)
       (min (hueDistance (hueOf c) hue2) (hueDistance (hueOf c) (h baseHsl)))"

definition triadicMatches :: "string \<Rightarrow> hsl \<Rightarrow> 'a color_scheme list \<Rightarrow> 'a color_scheme list" where
  "triadicMatches baseHex baseHsl cs =
     map (\<lambda>c. c\<lparr>hueDiff := Some (nearestOfThree ((h baseHsl + 120) mod 360)
                                   ((h baseHsl + 240) mod 360) baseHsl c)\<rparr>)
       (filter (\<lambda>c. hex c \<noteq> baseHex
                  \<and> nearestOfThree ((h baseHsl + 120) mod 360)
                       ((h baseHsl + 240) mod 360) baseHsl c \<le> 45) cs)"

definition splitMatches :: "string \<Rightarrow> hsl \<Rightarrow> 'a color_scheme list \<Rightarrow> 'a color_scheme list" where
  "splitMatches baseHex baseHsl cs =
     map (\<lambda>c. c\<lparr>hueDiff := Some (nearestOfThree ((h baseHsl + 150) mod 360)
                                   ((h baseHsl + 210) mod 360) baseHsl c)\<rparr>)
       (filter (\<lambda>c. hex c \<noteq> baseHex
                  \<and> nearestOfThree ((h baseHsl + 150) mod 360)
                       ((h baseHsl + 210) mod 360) baseHsl c \<le> 30) cs)"


section \<open>The colour wheel in exact arithmetic\<close>

text \<open>
  What the two conversions compute when no operation rounds, for the error bounds of the
  round trip. At the position \<open>t\<close> on the wheel, from 0 to 6, a channel is the lightness
  plus the chroma times its wave minus a half; a wave is a trapezoid between 0 and 1.
\<close>

definition clamp01 :: "rat \<Rightarrow> rat" where
  "clamp01 y = max 0 (min 1 y)"

definition waveR :: "rat \<Rightarrow> rat" where "waveR t = clamp01 (\<bar>t - 3\<bar> - 1)"
definition waveG :: "rat \<Rightarrow> rat" where "waveG t = clamp01 (2 - \<bar>t - 2\<bar>)"
definition waveB :: "rat \<Rightarrow> rat" where "waveB t = clamp01 (2 - \<bar>t - 4\<bar>)"

definition shade :: "rat \<Rightarrow> rat \<Rightarrow> rat \<Rightarrow> rat" where
  "shade lightness chroma w = lightness + chroma * (w - 1 / 2)"

text \<open>The factor of \<open>x\<close> in \<open>hslToHex\<close>: \<open>1 - |t % 2 - 1|\<close>.\<close>

definition tri :: "rat \<Rightarrow> rat" where
  "tri t = 1 - \<bar>jsmod t 2 - 1\<bar>"

text \<open>The chroma of a lightness and a saturation, both between 0 and 1.\<close>

definition chromaOf :: "rat \<Rightarrow> rat \<Rightarrow> rat" where
  "chromaOf lightness saturation = (1 - \<bar>2 * lightness - 1\<bar>) * saturation"

text \<open>
  The lightness, the chroma, the saturation and the position on the wheel of a colour with
  the channels \<open>R\<close>, \<open>G\<close> and \<open>B\<close>, as \<open>hexToHsl\<close> would have them if nothing were rounded:
  the lightness and the saturation between 0 and 1, the position between 0 and 6.
\<close>

definition lightExact :: "int \<Rightarrow> int \<Rightarrow> int \<Rightarrow> rat" where
  "lightExact R G B = of_int (max R (max G B) + min R (min G B)) / 510"

definition chromaExact :: "int \<Rightarrow> int \<Rightarrow> int \<Rightarrow> rat" where
  "chromaExact R G B = of_int (max R (max G B) - min R (min G B)) / 255"

definition satExact :: "int \<Rightarrow> int \<Rightarrow> int \<Rightarrow> rat" where
  "satExact R G B =
     (if max R (max G B) = min R (min G B) then 0
      else chromaExact R G B / (1 - \<bar>2 * lightExact R G B - 1\<bar>))"

definition hueExact :: "int \<Rightarrow> int \<Rightarrow> int \<Rightarrow> rat" where
  "hueExact R G B =
     (let M = max R (max G B); m = min R (min G B) in
      if M = m then 0
      else if M = R then of_int (G - B) / of_int (M - m) + (if G < B then 6 else 0)
      else if M = G then of_int (B - R) / of_int (M - m) + 2
      else of_int (R - G) / of_int (M - m) + 4)"


section \<open>Evaluation on numerals\<close>

text \<open>
  Rewrite rules that compute the operations on numerals; \<open>let_weak_cong\<close> makes the
  simplifier evaluate the bound value of a \<open>let\<close> before it enters the body.
\<close>


lemma floor_rat_numeral_div [simp]:
  "\<lfloor>(numeral a :: rat) / numeral b\<rfloor> = numeral a div numeral b"
  using floor_divide_of_int_eq [of "numeral a" "numeral b", where ?'a = rat] by simp

lemma floor_rat_neg_numeral_div [simp]:
  "\<lfloor>- ((numeral a :: rat) / numeral b)\<rfloor> = - numeral a div numeral b"
  using floor_divide_of_int_eq [of "- numeral a" "numeral b", where ?'a = rat] by simp

lemma floor_rat_one_div [simp]:
  "\<lfloor>(1 :: rat) / numeral b\<rfloor> = 1 div numeral b"
  using floor_divide_of_int_eq [of "1" "numeral b", where ?'a = rat] by simp

lemma floor_rat_neg_one_div [simp]:
  "\<lfloor>- ((1 :: rat) / numeral b)\<rfloor> = - 1 div numeral b"
  using floor_divide_of_int_eq [of "- 1" "numeral b", where ?'a = rat] by simp

lemmas on_numerals =
  fl_def [of "numeral a"] fl_def [of "- numeral a"]
  fl_def [of "numeral a / numeral b"] fl_def [of "- (numeral a / numeral b)"]
  fl_def [of "1 / numeral b"] fl_def [of "- (1 / numeral b)"]
  fl_def [of 0] fl_def [of 1] fl_def [of "- 1"]
  ilog2_def [of "numeral a"] ilog2_def [of "- numeral a"]
  ilog2_def [of "numeral a / numeral b"] ilog2_def [of "- (numeral a / numeral b)"]
  ilog2_def [of "1 / numeral b"] ilog2_def [of "- (1 / numeral b)"]
  ilog2_def [of 1] ilog2_def [of "- 1"]
  rne_def [of "numeral a"] rne_def [of "- numeral a"]
  rne_def [of "numeral a / numeral b"] rne_def [of "- (numeral a / numeral b)"]
  rne_def [of "1 / numeral b"] rne_def [of "- (1 / numeral b)"]
  rne_def [of 0] rne_def [of 1] rne_def [of "- 1"]
  pow2_def [of "numeral a"] pow2_def [of "- numeral a"] pow2_def [of 0] pow2_def [of 1] pow2_def [of "- 1"]
  compute_bitlen [of "numeral a"] compute_bitlen [of 1] compute_bitlen [of 0]
  for a b

lemmas number_eval = on_numerals fadd_def fsub_def fmul_def fdiv_def
  Math_round_def round_def jsmod_def Let_def

lemmas channel_eval = hexChannels_def parseInt16_def hexDigit_def substr_def Let_def

lemmas hex_eval = hexToHsl_def channel_eval rgbToHsl_def number_eval


section \<open>Rounding to binary64\<close>

lemma pow2_powi: "pow2 e = 2 powi e"
  by (simp add: pow2_def power_int_def power_one_over inverse_eq_divide)

lemma pow2_pos [simp]: "0 < pow2 e"
  by (simp add: pow2_powi)

lemma pow2_nonneg [simp]: "0 \<le> pow2 e"
  using pow2_pos [of e] by (rule less_imp_le)

lemma pow2_ne0 [simp]: "pow2 e \<noteq> 0"
  by (simp add: pow2_powi)

lemma pow2_not_less0 [simp]: "\<not> pow2 e < 0"
  using pow2_pos [of e] by (simp add: not_less)

lemma pow2_not_le0 [simp]: "\<not> pow2 e \<le> 0"
  using pow2_pos [of e] by (simp add: not_le)

lemma abs_pow2 [simp]: "\<bar>pow2 e\<bar> = pow2 e"
  by simp

lemma pow2_add: "pow2 (a + b) = pow2 a * pow2 b"
  by (simp add: pow2_powi power_int_add)

lemma pow2_diff: "pow2 (a - b) = pow2 a / pow2 b"
  by (simp add: pow2_powi power_int_diff)

lemma pow2_less_iff [simp]: "pow2 a < pow2 b \<longleftrightarrow> a < b"
proof
  assume "pow2 a < pow2 b"
  then show "a < b"
    using power_int_increasing [of b a "2::rat"] by (auto simp: pow2_powi not_le [symmetric])
next
  assume "a < b"
  then show "pow2 a < pow2 b"
    using power_int_strict_increasing [of a b "2::rat"] by (simp add: pow2_powi)
qed

lemma pow2_le_iff [simp]: "pow2 a \<le> pow2 b \<longleftrightarrow> a \<le> b"
  using pow2_less_iff [of b a] by (simp only: not_less [symmetric])

lemma pow2_nat: "0 \<le> e \<Longrightarrow> pow2 e = 2 ^ nat e"
  by (simp add: pow2_def)

lemma pow2_0 [simp]: "pow2 0 = 1"
  by (simp add: pow2_def)

lemma pow2_1 [simp]: "pow2 1 = 2"
  by (simp add: pow2_def)

lemma pow2_Suc: "pow2 (e + 1) = 2 * pow2 e"
  by (simp add: pow2_add)

lemma ilog2_bounds:
  assumes "x \<noteq> 0"
  shows "pow2 (ilog2 x) \<le> \<bar>x\<bar>" and "\<bar>x\<bar> < pow2 (ilog2 x + 1)"
proof -
  define a where "a = \<bar>x\<bar>"
  have a: "0 < a" using assms by (simp add: a_def)
  have "pow2 (ilog2 x) \<le> a \<and> a < pow2 (ilog2 x + 1)"
  proof (cases "1 \<le> a")
    case True
    define n where "n = \<lfloor>a\<rfloor>"
    have n: "1 \<le> n" using True by (simp add: n_def le_floor_iff)
    then have bl: "1 \<le> bitlen n" by (simp add: bitlen_alt_def)
    from bitlen_bounds [of n] n
    have lo: "(2::int) ^ nat (bitlen n - 1) \<le> n" and hi: "n < 2 ^ nat (bitlen n)" by auto
    have "pow2 (bitlen n - 1) = of_int (2 ^ nat (bitlen n - 1))"
      using bl by (simp add: pow2_nat)
    also have "\<dots> \<le> of_int n" using lo by (simp only: of_int_le_iff)
    also have "\<dots> \<le> a" by (simp add: n_def)
    finally have 1: "pow2 (bitlen n - 1) \<le> a" .
    have "a < of_int n + 1" using floor_correct [of a] by (simp add: n_def)
    also have "\<dots> = of_int (n + 1)" by simp
    also have "\<dots> \<le> of_int (2 ^ nat (bitlen n))" using hi by (simp only: of_int_le_iff zle_add1_eq_le)
    also have "\<dots> = pow2 (bitlen n)" using bl by (simp add: pow2_nat)
    finally have 2: "a < pow2 (bitlen n)" .
    have "ilog2 x = bitlen n - 1"
      using True 1 by (simp add: ilog2_def Let_def a_def [symmetric] n_def [symmetric])
    with 1 2 show ?thesis by simp
  next
    case False
    define y where "y = 1 / a"
    have y: "1 < y" using False a by (simp add: y_def)
    define n where "n = \<lfloor>y\<rfloor>"
    have n: "1 \<le> n" using y by (simp add: n_def le_floor_iff)
    then have bl: "1 \<le> bitlen n" by (simp add: bitlen_alt_def)
    from bitlen_bounds [of n] n
    have lo: "(2::int) ^ nat (bitlen n - 1) \<le> n" and hi: "n < 2 ^ nat (bitlen n)" by auto
    have "pow2 (bitlen n - 1) = of_int (2 ^ nat (bitlen n - 1))"
      using bl by (simp add: pow2_nat)
    also have "\<dots> \<le> of_int n" using lo by (simp only: of_int_le_iff)
    also have "\<dots> \<le> y" by (simp add: n_def)
    finally have 1: "pow2 (bitlen n - 1) \<le> y" .
    have "y < of_int n + 1" using floor_correct [of y] by (simp add: n_def)
    also have "\<dots> = of_int (n + 1)" by simp
    also have "\<dots> \<le> of_int (2 ^ nat (bitlen n))" using hi by (simp only: of_int_le_iff zle_add1_eq_le)
    also have "\<dots> = pow2 (bitlen n)" using bl by (simp add: pow2_nat)
    finally have 2: "y < pow2 (bitlen n)" .
    have ay: "a = 1 / y" using a by (simp add: y_def)
    have up: "a \<le> pow2 (1 - bitlen n)"
    proof -
      have "1 / y \<le> 1 / pow2 (bitlen n - 1)"
        using 1 by (intro divide_left_mono) (simp_all add: y less_imp_le [OF less_trans [OF zero_less_one y]] mult_pos_pos less_trans [OF zero_less_one y])
      also have "\<dots> = pow2 (1 - bitlen n)"
        using pow2_diff [of 0 "bitlen n - 1"] by simp
      finally show ?thesis by (simp add: ay)
    qed
    have low: "pow2 (- bitlen n) < a"
    proof -
      have "1 / pow2 (bitlen n) < 1 / y"
        using 2 y by (intro divide_strict_left_mono) (simp_all add: mult_pos_pos less_trans [OF zero_less_one y])
      moreover have "1 / pow2 (bitlen n) = pow2 (- bitlen n)"
        using pow2_diff [of 0 "bitlen n"] by simp
      ultimately show ?thesis by (simp add: ay)
    qed
    have e0: "ilog2 x = (if pow2 (1 - bitlen n) \<le> a then 1 - bitlen n else 1 - bitlen n - 1)"
      using False by (simp add: ilog2_def Let_def a_def [symmetric] y_def [symmetric] n_def [symmetric])
    show ?thesis
    proof (cases "pow2 (1 - bitlen n) \<le> a")
      case True
      then have "a = pow2 (1 - bitlen n)" using up by simp
      moreover have "pow2 (1 - bitlen n) < pow2 (1 - bitlen n + 1)" by simp
      ultimately show ?thesis using e0 True by simp
    next
      case F: False
      then have "ilog2 x = - bitlen n" using e0 by simp
      moreover have "a < pow2 (- bitlen n + 1)" using F by (simp add: add.commute)
      ultimately show ?thesis using low by simp
    qed
  qed
  then show "pow2 (ilog2 x) \<le> \<bar>x\<bar>" and "\<bar>x\<bar> < pow2 (ilog2 x + 1)"
    by (simp_all add: a_def)
qed

lemma ilog2_unique:
  assumes "pow2 e \<le> \<bar>x\<bar>" and "\<bar>x\<bar> < pow2 (e + 1)"
  shows "ilog2 x = e"
proof -
  have "0 < \<bar>x\<bar>" using assms(1) pow2_pos [of e] by linarith
  then have x: "x \<noteq> 0" by simp
  note b = ilog2_bounds [OF x]
  have "pow2 e < pow2 (ilog2 x + 1)" using assms(1) b(2) by (rule le_less_trans)
  moreover have "pow2 (ilog2 x) < pow2 (e + 1)" using b(1) assms(2) by (rule le_less_trans)
  ultimately show ?thesis by simp
qed


lemma pow2_numeral: "pow2 (numeral n) = 2 ^ numeral n"
  by (simp add: pow2_def)

lemma rne_cases:
  obtains (down) "q - of_int \<lfloor>q\<rfloor> < 1 / 2" "rne q = \<lfloor>q\<rfloor>"
  | (up) "1 / 2 < q - of_int \<lfloor>q\<rfloor>" "rne q = \<lfloor>q\<rfloor> + 1"
  | (tie_even) "q - of_int \<lfloor>q\<rfloor> = 1 / 2" "even \<lfloor>q\<rfloor>" "rne q = \<lfloor>q\<rfloor>"
  | (tie_odd) "q - of_int \<lfloor>q\<rfloor> = 1 / 2" "odd \<lfloor>q\<rfloor>" "rne q = \<lfloor>q\<rfloor> + 1"
  unfolding rne_def Let_def by (cases "q - of_int \<lfloor>q\<rfloor>" "1 / 2 :: rat" rule: linorder_cases) auto

lemma rne_spec:
  "\<bar>q - of_int (rne q)\<bar> < 1 / 2 \<or> (\<bar>q - of_int (rne q)\<bar> = 1 / 2 \<and> even (rne q))"
proof (cases q rule: rne_cases)
  case down
  moreover have "0 \<le> q - of_int \<lfloor>q\<rfloor>" by simp
  ultimately show ?thesis by simp
next
  case up
  moreover have "q - of_int \<lfloor>q\<rfloor> < 1" using floor_correct [of q] by simp
  ultimately show ?thesis by (simp add: abs_if)
next
  case tie_even
  then show ?thesis by simp
next
  case tie_odd
  then show ?thesis by (simp add: abs_if)
qed

lemma rne_eqI:
  assumes "\<bar>q - of_int n\<bar> < 1 / 2 \<or> (\<bar>q - of_int n\<bar> = 1 / 2 \<and> even n)"
  shows "rne q = n"
proof -
  define m where "m = rne q"
  have m: "\<bar>q - of_int m\<bar> < 1 / 2 \<or> (\<bar>q - of_int m\<bar> = 1 / 2 \<and> even m)"
    unfolding m_def by (rule rne_spec)
  have "\<bar>(of_int m :: rat) - of_int n\<bar> \<le> \<bar>q - of_int m\<bar> + \<bar>q - of_int n\<bar>"
    by linarith
  then have le: "\<bar>(of_int (m - n) :: rat)\<bar> \<le> \<bar>q - of_int m\<bar> + \<bar>q - of_int n\<bar>"
    by simp
  show ?thesis
  proof (rule ccontr)
    assume ne: "rne q \<noteq> n"
    then have "m \<noteq> n" by (simp add: m_def)
    then have "1 \<le> \<bar>m - n\<bar>" by linarith
    then have one: "(1::rat) \<le> \<bar>of_int (m - n)\<bar>"
      by (metis of_int_1 of_int_abs of_int_le_iff)
    with le m assms have tie: "\<bar>q - of_int m\<bar> = 1 / 2" "\<bar>q - of_int n\<bar> = 1 / 2" "even m" "even n"
      by linarith+
    with le one have "\<bar>(of_int (m - n) :: rat)\<bar> = 1" by linarith
    then have "\<bar>m - n\<bar> = 1" by (metis of_int_1 of_int_abs of_int_eq_iff)
    with tie(3,4) show False by presburger
  qed
qed

lemma rne_of_int [simp]: "rne (of_int n) = n"
  by (rule rne_eqI) simp

lemma rne_numeral [simp]: "rne (numeral n) = numeral n"
  using rne_of_int [of "numeral n"] by simp

lemma rne_minus: "rne (- q) = - rne q"
  by (rule rne_eqI) (use rne_spec [of q] in \<open>auto simp: abs_if split: if_splits\<close>)

lemma rne_dist: "\<bar>q - of_int (rne q)\<bar> \<le> 1 / 2"
  using rne_spec [of q] by linarith

lemma rne_mono:
  assumes "q \<le> q'"
  shows "rne q \<le> rne q'"
proof (cases "\<lfloor>q\<rfloor> = \<lfloor>q'\<rfloor>")
  case True
  show ?thesis
    by (cases q rule: rne_cases; cases q' rule: rne_cases) (use True assms in auto)
next
  case False
  with assms have "\<lfloor>q\<rfloor> < \<lfloor>q'\<rfloor>" using floor_mono [OF assms] by linarith
  moreover have "rne q \<le> \<lfloor>q\<rfloor> + 1" by (cases q rule: rne_cases) auto
  moreover have "\<lfloor>q'\<rfloor> \<le> rne q'" by (cases q' rule: rne_cases) auto
  ultimately show ?thesis by linarith
qed

subsection \<open>The rounding \<open>fl\<close>\<close>

lemma fl_0 [simp]: "fl 0 = 0"
  by (simp add: fl_def)

lemma ilog2_minus [simp]: "ilog2 (- x) = ilog2 x"
  by (simp add: ilog2_def)

lemma fl_minus: "fl (- x) = - fl x"
  by (simp add: fl_def Let_def rne_minus)

text \<open>The significand of a non-zero number, before and after rounding.\<close>

lemma significand_bounds:
  assumes "x \<noteq> 0"
  shows "2 ^ 52 \<le> \<bar>x / pow2 (ilog2 x - 52)\<bar>" and "\<bar>x / pow2 (ilog2 x - 52)\<bar> < 2 ^ 53"
proof -
  define t where "t = \<bar>x\<bar> / pow2 (ilog2 x)"
  have u: "pow2 (ilog2 x - 52) = pow2 (ilog2 x) / 2 ^ 52"
    by (simp add: pow2_diff pow2_numeral)
  have eq: "\<bar>x / pow2 (ilog2 x - 52)\<bar> = t * 2 ^ 52"
    unfolding u abs_divide t_def by simp
  from ilog2_bounds [OF assms] have "1 \<le> t" and "t < 2"
    by (simp_all add: t_def pow2_Suc pos_le_divide_eq pos_divide_less_eq)
  then show "2 ^ 52 \<le> \<bar>x / pow2 (ilog2 x - 52)\<bar>" and "\<bar>x / pow2 (ilog2 x - 52)\<bar> < 2 ^ 53"
    unfolding eq by simp_all
qed

lemma fl_pos_bounds:
  assumes "0 < x"
  shows "pow2 (ilog2 x) \<le> fl x" and "fl x \<le> pow2 (ilog2 x + 1)"
proof -
  let ?u = "pow2 (ilog2 x - 52)"
  have x: "x \<noteq> 0" using assms by simp
  have q: "0 < x / ?u" using assms by simp
  from significand_bounds [OF x] q
  have lo: "of_int (2 ^ 52) \<le> x / ?u" and hi: "x / ?u \<le> of_int (2 ^ 53)" by simp_all
  from rne_mono [OF lo] rne_mono [OF hi]
  have n: "2 ^ 52 \<le> rne (x / ?u)" "rne (x / ?u) \<le> 2 ^ 53" by (simp_all only: rne_of_int)
  have fl: "fl x = of_int (rne (x / ?u)) * ?u" using x by (simp add: fl_def Let_def)
  have u: "pow2 (ilog2 x) = 2 ^ 52 * ?u" "pow2 (ilog2 x + 1) = 2 ^ 53 * ?u"
    by (simp_all add: pow2_diff pow2_add pow2_numeral)
  have "(2 ^ 52 :: rat) \<le> of_int (rne (x / ?u))"
    using n(1) by (metis of_int_le_iff of_int_numeral of_int_power)
  then show "pow2 (ilog2 x) \<le> fl x" unfolding fl u by (simp add: mult_right_mono)
  have "of_int (rne (x / ?u)) \<le> (2 ^ 53 :: rat)"
    using n(2) by (metis of_int_le_iff of_int_numeral of_int_power)
  then show "fl x \<le> pow2 (ilog2 x + 1)" unfolding fl u by (simp add: mult_right_mono)
qed

lemma fl_pos: "0 < x \<Longrightarrow> 0 < fl x"
  using fl_pos_bounds(1) [of x] pow2_pos [of "ilog2 x"] by linarith

lemma fl_neg: "x < 0 \<Longrightarrow> fl x < 0"
  using fl_pos [of "- x"] by (simp add: fl_minus)

lemma fl_eq_0_iff [simp]: "fl x = 0 \<longleftrightarrow> x = 0"
  using fl_pos [of x] fl_neg [of x] by (cases x "0::rat" rule: linorder_cases) auto

lemma fl_nonneg: "0 \<le> x \<Longrightarrow> 0 \<le> fl x"
  using fl_pos [of x] by (cases "x = 0") (auto simp: less_le)

lemma fl_mono_pos:
  assumes "0 < x" and "x \<le> y"
  shows "fl x \<le> fl y"
proof -
  have y: "0 < y" using assms by linarith
  have bx: "pow2 (ilog2 x) \<le> x" "x < pow2 (ilog2 x + 1)"
    using ilog2_bounds [of x] assms(1) by simp_all
  have byy: "pow2 (ilog2 y) \<le> y" "y < pow2 (ilog2 y + 1)"
    using ilog2_bounds [of y] y by simp_all
  have "pow2 (ilog2 x) < pow2 (ilog2 y + 1)" using bx(1) assms(2) byy(2) by linarith
  then have le: "ilog2 x \<le> ilog2 y" by simp
  show ?thesis
  proof (cases "ilog2 x = ilog2 y")
    case True
    have "x / pow2 (ilog2 y - 52) \<le> y / pow2 (ilog2 y - 52)"
      using assms(2) by (rule divide_right_mono) simp
    from rne_mono [OF this] show ?thesis
      using assms(1) y True by (simp add: fl_def Let_def mult_right_mono)
  next
    case False
    with le have "ilog2 x + 1 \<le> ilog2 y" by simp
    then have "pow2 (ilog2 x + 1) \<le> pow2 (ilog2 y)" by simp
    with fl_pos_bounds(2) [OF assms(1)] fl_pos_bounds(1) [OF y] show ?thesis by linarith
  qed
qed

lemma fl_mono:
  assumes "x \<le> y"
  shows "fl x \<le> fl y"
proof -
  consider "0 < x" | "x \<le> 0" "0 \<le> y" | "y < 0" by linarith
  then show ?thesis
  proof cases
    case 1
    then show ?thesis using assms by (rule fl_mono_pos)
  next
    case 2
    have "fl x \<le> 0" using 2(1) fl_nonneg [of "- x"] by (simp add: fl_minus)
    moreover have "0 \<le> fl y" using 2(2) by (rule fl_nonneg)
    ultimately show ?thesis by simp
  next
    case 3
    then have "fl (- y) \<le> fl (- x)" using assms by (intro fl_mono_pos) simp_all
    then show ?thesis by (simp add: fl_minus)
  qed
qed

text \<open>The relative error of one rounding is at most \<open>2^-53\<close>.\<close>

lemma fl_error: "\<bar>fl x - x\<bar> \<le> \<bar>x\<bar> / 2 ^ 53"
proof (cases "x = 0")
  case True
  then show ?thesis by simp
next
  case False
  let ?u = "pow2 (ilog2 x - 52)"
  have fl: "fl x = of_int (rne (x / ?u)) * ?u" using False by (simp add: fl_def Let_def)
  have "of_int (rne (x / ?u)) * ?u - x = (of_int (rne (x / ?u)) - x / ?u) * ?u"
    by (simp add: left_diff_distrib)
  then have "\<bar>fl x - x\<bar> = \<bar>of_int (rne (x / ?u)) - x / ?u\<bar> * ?u"
    unfolding fl by (simp only: abs_mult abs_pow2)
  also have "\<dots> \<le> 1 / 2 * ?u"
    using rne_dist [of "x / ?u"] by (intro mult_right_mono) (simp_all add: abs_minus_commute)
  also have "\<dots> = pow2 (ilog2 x) / 2 ^ 53"
    by (simp add: pow2_diff pow2_numeral)
  also have "\<dots> \<le> \<bar>x\<bar> / 2 ^ 53"
    using ilog2_bounds(1) [OF False] by (simp add: divide_right_mono)
  finally show ?thesis .
qed


lemma ilog2_scale:
  assumes "x \<noteq> 0"
  shows "ilog2 (x * pow2 k) = ilog2 x + k"
proof (rule ilog2_unique)
  from ilog2_bounds [OF assms]
  have "pow2 (ilog2 x) * pow2 k \<le> \<bar>x\<bar> * pow2 k" and "\<bar>x\<bar> * pow2 k < pow2 (ilog2 x + 1) * pow2 k"
    by (simp_all add: mult_right_mono)
  then show "pow2 (ilog2 x + k) \<le> \<bar>x * pow2 k\<bar>" and "\<bar>x * pow2 k\<bar> < pow2 (ilog2 x + k + 1)"
    by (simp_all add: pow2_add abs_mult ac_simps)
qed

lemma fl_scale: "fl (x * pow2 k) = fl x * pow2 k"
proof (cases "x = 0")
  case True
  then show ?thesis by simp
next
  case False
  have "pow2 (ilog2 x + k - 52) = pow2 (ilog2 x - 52) * pow2 k"
    using pow2_add [of "ilog2 x - 52" k] by (simp add: algebra_simps)
  then show ?thesis
    using False by (simp add: fl_def Let_def ilog2_scale)
qed

lemma fl_half: "fl (x / 2) = fl x / 2"
  using fl_scale [of x "- 1"] by (simp add: pow2_def)

lemma fl_double: "fl (2 * x) = 2 * fl x"
  using fl_scale [of x 1] by (simp add: mult.commute)

lemma fl_of_significand:
  assumes "\<bar>m\<bar> < 2 ^ 53"
  shows "fl (of_int m) = of_int m"
proof (cases "m = 0")
  case True
  then show ?thesis by simp
next
  case False
  define x :: rat where "x = of_int m"
  define e where "e = ilog2 x"
  have x: "x \<noteq> 0" using False by (simp add: x_def)
  have ax: "\<bar>x\<bar> = of_int \<bar>m\<bar>" by (simp add: x_def)
  have "(1::rat) \<le> of_int \<bar>m\<bar>" using False by (metis of_int_1 of_int_le_iff abs_ge_self abs_le_zero_iff linorder_not_le zless_imp_add1_zle zero_less_abs_iff add_0)
  then have "pow2 0 \<le> \<bar>x\<bar>" by (simp add: ax)
  moreover have "\<bar>x\<bar> < pow2 (e + 1)" unfolding e_def using ilog2_bounds(2) [OF x] .
  ultimately have "pow2 0 < pow2 (e + 1)" by (rule le_less_trans)
  then have "0 < e + 1" by (simp only: pow2_less_iff)
  then have e0: "0 \<le> e" by simp
  have "(of_int \<bar>m\<bar> :: rat) < of_int (2 ^ 53)" using assms by (simp only: of_int_less_iff)
  then have "\<bar>x\<bar> < pow2 53" by (simp add: ax pow2_numeral)
  moreover have "pow2 e \<le> \<bar>x\<bar>" unfolding e_def using ilog2_bounds(1) [OF x] .
  ultimately have "pow2 e < pow2 53" by linarith
  then have "e < 53" by (simp only: pow2_less_iff)
  then have e52: "e \<le> 52" by simp
  define j where "j = nat (52 - e)"
  have u: "pow2 (e - 52) = 1 / 2 ^ j"
    using e52 pow2_diff [of 0 "52 - e"] by (simp add: j_def pow2_nat)
  have q: "x / pow2 (e - 52) = of_int (m * 2 ^ j)"
    by (simp add: u x_def)
  have "fl x = of_int (rne (x / pow2 (e - 52))) * pow2 (e - 52)"
    using x by (simp add: fl_def Let_def e_def)
  also have "\<dots> = of_int (m * 2 ^ j) * pow2 (e - 52)"
    unfolding q rne_of_int ..
  also have "\<dots> = x" by (simp add: u x_def)
  finally show ?thesis by (simp add: x_def)
qed

lemma fl_id:
  assumes "representable x"
  shows "fl x = x"
proof -
  from assms obtain m k where "\<bar>m\<bar> < 2 ^ 53" and "x = of_int m * pow2 k"
    by (auto simp: representable_def)
  then show ?thesis by (simp add: fl_scale fl_of_significand)
qed

lemma significand_range:
  assumes "x \<noteq> 0"
  shows "\<bar>rne (x / pow2 (ilog2 x - 52))\<bar> \<le> 2 ^ 53"
proof -
  let ?q = "x / pow2 (ilog2 x - 52)"
  have "\<bar>?q\<bar> < 2 ^ 53" by (rule significand_bounds(2) [OF assms])
  then have "- (2 ^ 53) < ?q" and "?q < 2 ^ 53" by (simp_all only: abs_less_iff minus_less_iff)
  then have "- of_int (2 ^ 53) \<le> ?q" and "?q \<le> of_int (2 ^ 53)" by simp_all
  then have "rne (- of_int (2 ^ 53)) \<le> rne ?q" and "rne ?q \<le> rne (of_int (2 ^ 53))"
    by (simp_all only: rne_mono)
  then show ?thesis by (simp add: rne_minus)
qed

lemma fl_representable: "representable (fl x)"
proof (cases "x = 0")
  case True
  have "\<bar>0::int\<bar> < 2 ^ 53 \<and> fl x = of_int 0 * pow2 0" using True by simp
  then show ?thesis unfolding representable_def by blast
next
  case False
  define n where "n = rne (x / pow2 (ilog2 x - 52))"
  have fl: "fl x = of_int n * pow2 (ilog2 x - 52)"
    using False by (simp add: fl_def Let_def n_def)
  have n: "\<bar>n\<bar> \<le> 2 ^ 53" unfolding n_def by (rule significand_range [OF False])
  show ?thesis
  proof (cases "\<bar>n\<bar> < 2 ^ 53")
    case True
    with fl show ?thesis unfolding representable_def by blast
  next
    case F: False
    with n have "n = 2 ^ 53 \<or> n = - (2 ^ 53)" by (auto simp: abs_if split: if_splits)
    moreover have "pow2 (ilog2 x - 51) = 2 * pow2 (ilog2 x - 52)"
      using pow2_Suc [of "ilog2 x - 52"] by (simp add: algebra_simps)
    ultimately have "fl x = of_int (n div 2) * pow2 (ilog2 x - 51) \<and> \<bar>n div 2\<bar> < 2 ^ 53"
      unfolding fl by auto
    then show ?thesis unfolding representable_def by blast
  qed
qed

lemma fl_fl [simp]: "fl (fl x) = fl x"
  by (rule fl_id) (rule fl_representable)

lemma fl_of_int:
  assumes "\<bar>n\<bar> \<le> 2 ^ 53"
  shows "fl (of_int n) = of_int n"
proof (cases "\<bar>n\<bar> < 2 ^ 53")
  case True
  then show ?thesis by (rule fl_of_significand)
next
  case False
  with assms have "n = 2 * 2 ^ 52 \<or> n = 2 * (- (2 ^ 52))" by (auto simp: abs_if split: if_splits)
  then show ?thesis
    using fl_double [of "of_int (2 ^ 52)"] fl_double [of "of_int (- (2 ^ 52))"]
      fl_of_significand [of "2 ^ 52"] fl_of_significand [of "- (2 ^ 52)"]
    by auto
qed

lemma fl_numeral_small [simp]:
  "numeral n \<le> (2 ^ 53 :: int) \<Longrightarrow> fl (numeral n) = numeral n"
  using fl_of_int [of "numeral n"] by simp

lemma fl_1 [simp]: "fl 1 = 1"
  using fl_of_int [of 1] by simp


subsection \<open>Colours used below\<close>

lemma hsl_FF0000: "hexToHsl ''#FF0000'' = Some \<lparr>h = 0, s = 100, l = 50\<rparr>"
proof -
  have "hexChannels ''#FF0000'' = Some (255, 0, 0)"
    by (simp add: channel_eval)
  moreover have "rgbToHsl 255 0 0 = \<lparr>h = 0, s = 100, l = 50\<rparr>"
    by (simp add: rgbToHsl_def number_eval cong: let_weak_cong)
  ultimately show ?thesis by (simp add: hexToHsl_def)
qed

lemma hsl_FF2B00: "hexToHsl ''#FF2B00'' = Some \<lparr>h = 10, s = 100, l = 50\<rparr>"
proof -
  have "hexChannels ''#FF2B00'' = Some (255, 43, 0)"
    by (simp add: channel_eval)
  moreover have "rgbToHsl 255 43 0 = \<lparr>h = 10, s = 100, l = 50\<rparr>"
    by (simp add: rgbToHsl_def number_eval cong: let_weak_cong)
  ultimately show ?thesis by (simp add: hexToHsl_def)
qed

lemma hsl_D4FF00: "hexToHsl ''#D4FF00'' = Some \<lparr>h = 70, s = 100, l = 50\<rparr>"
proof -
  have "hexChannels ''#D4FF00'' = Some (212, 255, 0)"
    by (simp add: channel_eval)
  moreover have "rgbToHsl 212 255 0 = \<lparr>h = 70, s = 100, l = 50\<rparr>"
    by (simp add: rgbToHsl_def number_eval cong: let_weak_cong)
  ultimately show ?thesis by (simp add: hexToHsl_def)
qed

lemma hsl_00AAFF: "hexToHsl ''#00AAFF'' = Some \<lparr>h = 200, s = 100, l = 50\<rparr>"
proof -
  have "hexChannels ''#00AAFF'' = Some (0, 170, 255)"
    by (simp add: channel_eval)
  moreover have "rgbToHsl 0 170 255 = \<lparr>h = 200, s = 100, l = 50\<rparr>"
    by (simp add: rgbToHsl_def number_eval cong: let_weak_cong)
  ultimately show ?thesis by (simp add: hexToHsl_def)
qed

lemma hsl_00FFFF: "hexToHsl ''#00FFFF'' = Some \<lparr>h = 180, s = 100, l = 50\<rparr>"
proof -
  have "hexChannels ''#00FFFF'' = Some (0, 255, 255)"
    by (simp add: channel_eval)
  moreover have "rgbToHsl 0 255 255 = \<lparr>h = 180, s = 100, l = 50\<rparr>"
    by (simp add: rgbToHsl_def number_eval cong: let_weak_cong)
  ultimately show ?thesis by (simp add: hexToHsl_def)
qed

lemma hsl_800000: "hexToHsl ''#800000'' = Some \<lparr>h = 0, s = 100, l = 25\<rparr>"
proof -
  have "hexChannels ''#800000'' = Some (128, 0, 0)"
    by (simp add: channel_eval)
  moreover have "rgbToHsl 128 0 0 = \<lparr>h = 0, s = 100, l = 25\<rparr>"
    by (simp add: rgbToHsl_def number_eval cong: let_weak_cong)
  ultimately show ?thesis by (simp add: hexToHsl_def)
qed

lemma hsl_FF5500: "hexToHsl ''#FF5500'' = Some \<lparr>h = 20, s = 100, l = 50\<rparr>"
proof -
  have "hexChannels ''#FF5500'' = Some (255, 85, 0)"
    by (simp add: channel_eval)
  moreover have "rgbToHsl 255 85 0 = \<lparr>h = 20, s = 100, l = 50\<rparr>"
    by (simp add: rgbToHsl_def number_eval cong: let_weak_cong)
  ultimately show ?thesis by (simp add: hexToHsl_def)
qed

lemma hsl_FF0001: "hexToHsl ''#FF0001'' = Some \<lparr>h = 360, s = 100, l = 50\<rparr>"
proof -
  have "hexChannels ''#FF0001'' = Some (255, 0, 1)"
    by (simp add: channel_eval)
  moreover have "rgbToHsl 255 0 1 = \<lparr>h = 360, s = 100, l = 50\<rparr>"
    by (simp add: rgbToHsl_def number_eval cong: let_weak_cong)
  ultimately show ?thesis by (simp add: hexToHsl_def)
qed

lemma hsl_FF0102: "hexToHsl ''#FF0102'' = Some \<lparr>h = 360, s = 100, l = 50\<rparr>"
proof -
  have "hexChannels ''#FF0102'' = Some (255, 1, 2)"
    by (simp add: channel_eval)
  moreover have "rgbToHsl 255 1 2 = \<lparr>h = 360, s = 100, l = 50\<rparr>"
    by (simp add: rgbToHsl_def number_eval cong: let_weak_cong)
  ultimately show ?thesis by (simp add: hexToHsl_def)
qed


section \<open>Loops and sorting\<close>


subsection \<open>The loops\<close>

lemma forEach_append:
  "forEach f (xs @ ys) st = (case forEach f xs st of None \<Rightarrow> None | Some st' \<Rightarrow> forEach f ys st')"
  by (induction xs arbitrary: st) (auto split: option.splits)

lemma forEach_pushes:
  assumes "\<And>x st. x \<in> set xs \<Longrightarrow> f x st = Some (st @ g x)"
  shows "forEach f xs st = Some (st @ concat (map g xs))"
  using assms by (induction xs arbitrary: st) auto

lemma concat_map_if:
  "concat (map (\<lambda>x. if P x then [a x] else []) xs) = map a (filter P xs)"
  by (induction xs) auto

subsection \<open>The sort\<close>

lemma mset_insertSorted: "mset (insertSorted cmp x xs) = add_mset x (mset xs)"
  by (induction xs) auto

lemma mset_js_sort_aux:
  "mset (foldl (\<lambda>sorted x. insertSorted cmp x sorted) acc xs) = mset acc + mset xs"
  by (induction xs arbitrary: acc) (auto simp: mset_insertSorted)

lemma mset_js_sort: "mset (js_sort cmp xs) = mset xs"
  by (simp add: js_sort_def mset_js_sort_aux)

lemma set_js_sort: "set (js_sort cmp xs) = set xs"
  using mset_js_sort [of cmp xs] by (metis set_mset_mset)

lemma length_js_sort: "length (js_sort cmp xs) = length xs"
  using mset_js_sort [of cmp xs] by (metis size_mset)

lemma keyed_byHueDiff: "keyed hueDiff byHueDiff"
  by (simp add: keyed_def byHueDiff_def)

lemma keyed_byLightnessDiff: "keyed lightnessDiff byLightnessDiff"
  by (simp add: keyed_def byLightnessDiff_def)

lemma keyed_negative:
  "keyed key cmp \<Longrightarrow> negative (cmp a b) \<longleftrightarrow> (\<exists>x y. key a = Some x \<and> key b = Some y \<and> x < y)"
  by (auto simp: keyed_def negative_def split: option.splits)

lemma map_filter_Cons:
  "List.map_filter f (x # xs) = (case f x of None \<Rightarrow> List.map_filter f xs | Some y \<Rightarrow> y # List.map_filter f xs)"
  by (simp add: List.map_filter_def split: option.splits)

lemma set_map_filter: "set (List.map_filter f xs) = {y. \<exists>x \<in> set xs. f x = Some y}"
  by (induction xs) (auto simp: map_filter_Cons List.map_filter_simps split: option.splits)

lemma sorted_insertSorted:
  assumes "keyed key cmp" and "sorted (List.map_filter key xs)"
  shows "sorted (List.map_filter key (insertSorted cmp x xs))"
  using assms(2)
proof (induction xs)
  case Nil
  then show ?case by (simp add: map_filter_Cons List.map_filter_simps split: option.splits)
next
  case (Cons y ys)
  show ?case
  proof (cases "negative (cmp x y)")
    case True
    then obtain v w where vw: "key x = Some v" "key y = Some w" "v < w"
      using keyed_negative [OF assms(1)] by blast
    with Cons.prems True show ?thesis
      by (auto simp: map_filter_Cons)
  next
    case False
    have tail: "sorted (List.map_filter key ys)"
      using Cons.prems by (auto simp: map_filter_Cons split: option.splits)
    have ih: "sorted (List.map_filter key (insertSorted cmp x ys))"
      using Cons.IH tail by simp
    show ?thesis
    proof (cases "key y")
      case None
      with False ih show ?thesis by (simp add: map_filter_Cons)
    next
      case (Some w)
      have "\<forall>z \<in> set (List.map_filter key (insertSorted cmp x ys)). w \<le> z"
      proof
        fix z assume "z \<in> set (List.map_filter key (insertSorted cmp x ys))"
        then obtain e where e: "e \<in> set (insertSorted cmp x ys)" "key e = Some z"
          by (auto simp: set_map_filter)
        have "e = x \<or> e \<in> set ys"
          using e(1) mset_insertSorted [of cmp x ys]
          by (metis insert_iff set_mset_add_mset_insert set_mset_mset)
        then show "w \<le> z"
        proof
          assume "e = x"
          with False Some e(2) keyed_negative [OF assms(1), of x y] show ?thesis by auto
        next
          assume "e \<in> set ys"
          then have "z \<in> set (List.map_filter key ys)" using e(2) by (auto simp: set_map_filter)
          with Cons.prems Some show ?thesis by (auto simp: map_filter_Cons)
        qed
      qed
      with False Some ih show ?thesis by (simp add: map_filter_Cons)
    qed
  qed
qed

lemma sorted_js_sort_aux:
  assumes "keyed key cmp" and "sorted (List.map_filter key acc)"
  shows "sorted (List.map_filter key (foldl (\<lambda>sorted x. insertSorted cmp x sorted) acc xs))"
  using assms(2) by (induction xs arbitrary: acc) (auto intro: sorted_insertSorted [OF assms(1)])

lemma sorted_js_sort:
  "keyed key cmp \<Longrightarrow> sorted (List.map_filter key (js_sort cmp xs))"
  unfolding js_sort_def by (rule sorted_js_sort_aux) (simp_all add: List.map_filter_simps)

lemma sorted_map_filter_take:
  "sorted (List.map_filter key xs) \<Longrightarrow> sorted (List.map_filter key (take n xs))"
proof (induction xs arbitrary: n)
  case Nil
  then show ?case by simp
next
  case (Cons x xs)
  show ?case
  proof (cases n)
    case 0
    then show ?thesis by (simp add: List.map_filter_simps)
  next
    case (Suc m)
    have tail: "sorted (List.map_filter key xs)"
      using Cons.prems by (auto simp: map_filter_Cons split: option.splits)
    have sub: "set (List.map_filter key (take m xs)) \<subseteq> set (List.map_filter key xs)"
      by (auto simp: set_map_filter dest: in_set_takeD)
    from Cons.IH [OF tail, of m] Cons.prems sub Suc show ?thesis
      by (auto simp: map_filter_Cons split: option.splits)
  qed
qed

lemma js_sort_head_aux:
  assumes "\<And>y. y \<in> set ys \<Longrightarrow> \<not> negative (cmp y b)"
  shows "foldl (\<lambda>sorted x. insertSorted cmp x sorted) (b # acc) ys
         = b # foldl (\<lambda>sorted x. insertSorted cmp x sorted) acc ys"
  using assms by (induction ys arbitrary: acc) auto

lemma js_sort_unkeyed_head:
  assumes "keyed key cmp" and "key b = None"
  shows "js_sort cmp (b # ys) = b # js_sort cmp ys"
proof -
  have "\<not> negative (cmp y b)" for y
    using keyed_negative [OF assms(1), of y b] assms(2) by simp
  then show ?thesis
    by (simp add: js_sort_def js_sort_head_aux)
qed


lemma fl_le_1: "x \<le> 1 \<Longrightarrow> fl x \<le> 1"
  using fl_mono [of x 1] by simp

lemma hslToRgb_360:
  "hslToRgb 360 s1 l1 =
     (let ll = fdiv (of_int l1) 100; ss = fdiv (of_int s1) 100;
          c = fmul (fsub 1 \<bar>fsub (fmul 2 ll) 1\<bar>) ss;
          v = Math_round (fmul (fsub ll (fdiv c 2)) 255)
      in (v, v, v))"
proof -
  have hh: "fdiv (of_int 360) 360 = 1" by (simp add: fdiv_def)
  have sect: "\<not> 1 < fdiv 1 6" "\<not> 1 < fdiv 2 6" "\<not> 1 < fdiv 3 6" "\<not> 1 < fdiv 4 6" "\<not> 1 < fdiv 5 6"
    by (simp_all add: fdiv_def not_less fl_le_1)
  have m: "fadd 0 (fsub a b) = fsub a b" for a b
    by (simp add: fadd_def fsub_def)
  show ?thesis
    unfolding hslToRgb_def hh Let_def by (simp add: sect m)
qed


section \<open>The range of \<open>hexToHsl\<close>\<close>

lemma fl_unit: "0 \<le> x \<Longrightarrow> x \<le> 1 \<Longrightarrow> 0 \<le> fl x \<and> fl x \<le> 1"
  using fl_nonneg [of x] fl_le_1 [of x] by simp

lemma fl_abs_le:
  assumes "\<bar>x\<bar> \<le> y"
  shows "\<bar>fl x\<bar> \<le> fl y"
proof -
  have "fl x \<le> fl y" using assms by (intro fl_mono) linarith
  moreover have "fl (- x) \<le> fl y" using assms by (intro fl_mono) linarith
  ultimately show ?thesis by (simp add: fl_minus abs_le_iff)
qed

lemma Math_round_range:
  assumes "0 \<le> x" and "x \<le> of_int n"
  shows "0 \<le> Math_round x" and "Math_round x \<le> n"
proof -
  have "round (0::rat) \<le> round x" using assms(1) by (rule round_mono)
  then show "0 \<le> Math_round x" by (simp add: Math_round_def)
  have "round x \<le> round (of_int n :: rat)" using assms(2) by (rule round_mono)
  then show "Math_round x \<le> n" by (simp add: Math_round_def)
qed

lemma scaled_round_range:
  assumes "0 \<le> x" and "x \<le> 1" and "0 < n" and "n \<le> 2 ^ 53"
  shows "0 \<le> Math_round (fmul x (of_int n))" and "Math_round (fmul x (of_int n)) \<le> n"
proof -
  have "0 \<le> x * of_int n" using assms by simp
  then have lo: "0 \<le> fmul x (of_int n)" unfolding fmul_def by (rule fl_nonneg)
  have "x * of_int n \<le> 1 * of_int n" using assms by (intro mult_right_mono) simp_all
  then have "fl (x * of_int n) \<le> fl (of_int n)" by (intro fl_mono) simp
  then have hi: "fmul x (of_int n) \<le> of_int n"
    using assms by (simp add: fmul_def fl_of_int)
  from Math_round_range [OF lo hi]
  show "0 \<le> Math_round (fmul x (of_int n))" and "Math_round (fmul x (of_int n)) \<le> n" .
qed

text \<open>The hue before the division by six: a quotient in \<open>[-1, 1]\<close> plus the sector offset.\<close>

lemma quotient_range:
  assumes "\<bar>p\<bar> \<le> d" and "0 < d"
  shows "- 1 \<le> fdiv (fl p) (fl d)" and "fdiv (fl p) (fl d) \<le> 1"
    and "p < 0 \<Longrightarrow> fdiv (fl p) (fl d) \<le> 0" and "0 \<le> p \<Longrightarrow> 0 \<le> fdiv (fl p) (fl d)"
proof -
  have d: "0 < fl d" using assms(2) by (rule fl_pos)
  have "\<bar>fl p\<bar> \<le> fl d" using assms(1) by (rule fl_abs_le)
  then have "\<bar>fl p / fl d\<bar> \<le> 1" using d by (simp add: abs_divide)
  then have "\<bar>fl (fl p / fl d)\<bar> \<le> fl 1" by (rule fl_abs_le)
  then show "- 1 \<le> fdiv (fl p) (fl d)" and "fdiv (fl p) (fl d) \<le> 1"
    by (simp_all add: fdiv_def abs_le_iff)
  show "fdiv (fl p) (fl d) \<le> 0" if "p < 0"
  proof -
    have "fl p < 0" using that by (rule fl_neg)
    then have "fl p / fl d \<le> 0" using d by (simp add: divide_le_0_iff)
    then have "fl (fl p / fl d) \<le> fl 0" by (rule fl_mono)
    then show ?thesis by (simp add: fdiv_def)
  qed
  show "0 \<le> fdiv (fl p) (fl d)" if "0 \<le> p"
  proof -
    have "0 \<le> fl p" using that by (rule fl_nonneg)
    then have "0 \<le> fl p / fl d" using d by simp
    then show ?thesis unfolding fdiv_def by (rule fl_nonneg)
  qed
qed

lemma fadd_range:
  assumes "lo \<le> q + c" and "q + c \<le> hi" and "fl lo = lo" and "fl hi = hi"
  shows "lo \<le> fadd q c" and "fadd q c \<le> hi"
  using fl_mono [OF assms(1)] fl_mono [OF assms(2)] assms(3,4) by (simp_all add: fadd_def)

lemma rgbToHsl_range:
  assumes "0 \<le> R" "R \<le> 255" "0 \<le> G" "G \<le> 255" "0 \<le> B" "B \<le> 255"
  shows "0 \<le> h (rgbToHsl R G B) \<and> h (rgbToHsl R G B) \<le> 360
       \<and> 0 \<le> s (rgbToHsl R G B) \<and> s (rgbToHsl R G B) \<le> 100
       \<and> 0 \<le> l (rgbToHsl R G B) \<and> l (rgbToHsl R G B) \<le> 100"
proof -
  define r where "r = fdiv (of_int R) 255"
  define g where "g = fdiv (of_int G) 255"
  define b where "b = fdiv (of_int B) 255"
  define mx where "mx = max r (max g b)"
  define mn where "mn = min r (min g b)"
  define diff where "diff = fsub mx mn"
  define l0 where "l0 = fdiv (fadd mx mn) 2"
  define s0 where "s0 = (if diff \<noteq> 0
                then (if 1 / 2 < l0 then fdiv diff (fsub (fsub 2 mx) mn)
                      else fdiv diff (fadd mx mn))
                else 0)"
  define hs where "hs = (if mx = r then fadd (fdiv (fsub g b) diff) (if g < b then 6 else 0)
                           else if mx = g then fadd (fdiv (fsub b r) diff) 2
                           else if mx = b then fadd (fdiv (fsub r g) diff) 4
                           else 0)"
  define h0 where "h0 = (if diff \<noteq> 0 then fdiv hs 6 else 0)"
  have unfold: "rgbToHsl R G B = \<lparr>h = Math_round (fmul h0 360),
           s = Math_round (fmul s0 100), l = Math_round (fmul l0 100)\<rparr>"
    by (simp add: rgbToHsl_def Let_def r_def g_def b_def mx_def mn_def diff_def l0_def s0_def
        hs_def h0_def)
  have chan: "0 \<le> fdiv (of_int v) 255 \<and> fdiv (of_int v) 255 \<le> 1" if "0 \<le> v" "v \<le> 255" for v :: int
    unfolding fdiv_def using that by (intro fl_unit) simp_all
  have r: "0 \<le> r" "r \<le> 1" and g: "0 \<le> g" "g \<le> 1" and b: "0 \<le> b" "b \<le> 1"
    using chan assms by (simp_all add: r_def g_def b_def)
  have rep: "fl r = r" "fl g = g" "fl b = b"
    by (simp_all add: r_def g_def b_def fdiv_def)
  have mx: "0 \<le> mx" "mx \<le> 1" "r \<le> mx" "g \<le> mx" "b \<le> mx"
    and mn: "0 \<le> mn" "mn \<le> 1" "mn \<le> r" "mn \<le> g" "mn \<le> b"
    using r g b by (simp_all add: mx_def mn_def)
  have fmx: "fl mx = mx" and fmn: "fl mn = mn"
    using rep by (auto simp: mx_def mn_def max_def min_def)
  have le: "mn \<le> mx" using mx(3) mn(3) by linarith

  \<comment> \<open>lightness\<close>
  have "0 \<le> fl (mx + mn)" using mx(1) mn(1) by (intro fl_nonneg) simp
  moreover have "fl (mx + mn) \<le> fl 2" using mx(2) mn(2) by (intro fl_mono) simp
  ultimately have "0 \<le> l0 \<and> l0 \<le> 1"
    unfolding l0_def fdiv_def fadd_def by (intro fl_unit) simp_all
  then have L: "0 \<le> Math_round (fmul l0 100) \<and> Math_round (fmul l0 100) \<le> 100"
    using scaled_round_range [of l0 100] by simp

  \<comment> \<open>saturation\<close>
  have "0 \<le> s0 \<and> s0 \<le> 1"
  proof (cases "diff \<noteq> 0")
    case False
    then show ?thesis by (simp add: s0_def)
  next
    case True
    then have pos: "0 < mx - mn" using le by (auto simp: diff_def fsub_def)
    then have dpos: "0 < diff" unfolding diff_def fsub_def by (rule fl_pos)
    have ratio: "0 \<le> fdiv diff den \<and> fdiv diff den \<le> 1" if "diff \<le> den" for den
    proof -
      have "0 < den" using dpos that by linarith
      then have "0 \<le> diff / den" "diff / den \<le> 1" using dpos that by simp_all
      then show ?thesis unfolding fdiv_def by (intro fl_unit)
    qed
    have "mx \<le> fl (2 - mx)"
      using fl_mono [of mx "2 - mx"] mx(2) by (simp add: fmx)
    then have "fl (mx - mn) \<le> fl (fl (2 - mx) - mn)" by (intro fl_mono) simp
    then have 1: "diff \<le> fsub (fsub 2 mx) mn" by (simp add: diff_def fsub_def)
    have "fl (mx - mn) \<le> fl (mx + mn)" using mn(1) by (intro fl_mono) simp
    then have 2: "diff \<le> fadd mx mn" by (simp add: diff_def fsub_def fadd_def)
    from True ratio [OF 1] ratio [OF 2] show ?thesis by (simp add: s0_def)
  qed
  then have S: "0 \<le> Math_round (fmul s0 100) \<and> Math_round (fmul s0 100) \<le> 100"
    using scaled_round_range [of s0 100] by simp

  \<comment> \<open>hue\<close>
  have "0 \<le> h0 \<and> h0 \<le> 1"
  proof (cases "diff \<noteq> 0")
    case False
    then show ?thesis by (simp add: h0_def)
  next
    case True
    then have pos: "0 < mx - mn" using le by (auto simp: diff_def fsub_def)
    note q = quotient_range [OF _ pos, folded fsub_def, folded diff_def]
    have "0 \<le> hs \<and> hs \<le> 6"
    proof -
      consider (red) "mx = r" | (green) "mx \<noteq> r" "mx = g" | (blue) "mx \<noteq> r" "mx \<noteq> g" "mx = b"
        | (none) "mx \<noteq> r" "mx \<noteq> g" "mx \<noteq> b" by blast
      then show ?thesis
      proof cases
        case red
        have a: "\<bar>g - b\<bar> \<le> mx - mn" using mx mn by (simp add: abs_le_iff) 
        show ?thesis
        proof (cases "g < b")
          case True
          then have "fdiv (fsub g b) diff \<le> 0" using q(3) [OF a] by (simp add: fsub_def)
          with q(1) [OF a] have "5 \<le> fdiv (fsub g b) diff + 6" "fdiv (fsub g b) diff + 6 \<le> 6"
            by (simp_all add: fsub_def)
          from fadd_range [OF this] show ?thesis using red True by (simp add: hs_def)
        next
          case False
          then have "0 \<le> fdiv (fsub g b) diff" using q(4) [OF a] by (simp add: fsub_def)
          with q(2) [OF a] have "0 \<le> fdiv (fsub g b) diff + 0" "fdiv (fsub g b) diff + 0 \<le> 1"
            by (simp_all add: fsub_def)
          from fadd_range [OF this] show ?thesis using red False by (simp add: hs_def)
        qed
      next
        case green
        have a: "\<bar>b - r\<bar> \<le> mx - mn" using mx mn by (simp add: abs_le_iff)
        from q(1,2) [OF a] have "1 \<le> fdiv (fsub b r) diff + 2" "fdiv (fsub b r) diff + 2 \<le> 3"
          by (simp_all add: fsub_def)
        from fadd_range [OF this] show ?thesis using green by (simp add: hs_def)
      next
        case blue
        have a: "\<bar>r - g\<bar> \<le> mx - mn" using mx mn by (simp add: abs_le_iff)
        from q(1,2) [OF a] have "3 \<le> fdiv (fsub r g) diff + 4" "fdiv (fsub r g) diff + 4 \<le> 5"
          by (simp_all add: fsub_def)
        from fadd_range [OF this] show ?thesis using blue by (simp add: hs_def)
      next
        case none
        then show ?thesis by (simp add: hs_def)
      qed
    qed
    then have "0 \<le> hs / 6" "hs / 6 \<le> 1" by simp_all
    then show ?thesis using True unfolding h0_def fdiv_def by (simp add: fl_unit)
  qed
  then have H: "0 \<le> Math_round (fmul h0 360) \<and> Math_round (fmul h0 360) \<le> 360"
    using scaled_round_range [of h0 360] by simp
  from H S L show ?thesis by (simp add: unfold)
qed


lemma hexDigit_range: "hexDigit c = Some d \<Longrightarrow> 0 \<le> d \<and> d \<le> 15"
  by (auto simp: hexDigit_def Let_def split: if_splits)

lemma parseInt16_range:
  assumes "parseInt16 str = Some v" and "length str \<le> 2"
  shows "0 \<le> v \<and> v \<le> 255"
proof -
  from assms(1) have ne: "str \<noteq> []" and all: "list_all (\<lambda>c. hexDigit c \<noteq> None) str"
    and v: "v = foldl (\<lambda>a c. 16 * a + the (hexDigit c)) 0 str"
    by (auto simp: parseInt16_def split: if_splits)
  from ne assms(2) consider c where "str = [c]" | c d where "str = [c, d]"
    by (cases str; cases "tl str"; cases "tl (tl str)") auto
  then show ?thesis
  proof cases
    case 1
    with all obtain x where "hexDigit c = Some x" by auto
    with hexDigit_range [OF this] 1 v show ?thesis by simp
  next
    case 2
    with all obtain x y where "hexDigit c = Some x" "hexDigit d = Some y" by auto
    with hexDigit_range [OF this(1)] hexDigit_range [OF this(2)] 2 v show ?thesis by simp
  qed
qed

lemma hexChannels_range:
  assumes "hexChannels hexstr = Some (R, G, B)"
  shows "0 \<le> R \<and> R \<le> 255 \<and> 0 \<le> G \<and> G \<le> 255 \<and> 0 \<le> B \<and> B \<le> 255"
proof -
  from assms have
    p: "parseInt16 (substr (remove1 CHR ''#'' hexstr) 0 2) = Some R"
       "parseInt16 (substr (remove1 CHR ''#'' hexstr) 2 2) = Some G"
       "parseInt16 (substr (remove1 CHR ''#'' hexstr) 4 2) = Some B"
    by (auto simp: hexChannels_def Let_def split: option.splits)
  have len: "length (substr t i 2) \<le> 2" for t :: string and i
    by (simp add: substr_def)
  from parseInt16_range [OF p(1) len] parseInt16_range [OF p(2) len] parseInt16_range [OF p(3) len]
  show ?thesis by simp
qed

lemma hexToHsl_channels:
  assumes "hexToHsl hexstr = Some v"
  obtains R G B where "hexChannels hexstr = Some (R, G, B)" and "v = rgbToHsl R G B"
  using assms by (auto simp: hexToHsl_def split: option.splits)

lemma hexToHsl_range:
  assumes "hexToHsl hexstr = Some v"
  shows "0 \<le> h v \<and> h v \<le> 360 \<and> 0 \<le> s v \<and> s v \<le> 100 \<and> 0 \<le> l v \<and> l v \<le> 100"
proof -
  from assms obtain R G B where c: "hexChannels hexstr = Some (R, G, B)" and v: "v = rgbToHsl R G B"
    by (rule hexToHsl_channels)
  from hexChannels_range [OF c] show ?thesis unfolding v by (intro rgbToHsl_range) simp_all
qed

lemma hueDistance_range:
  assumes "0 \<le> a" "a \<le> 360" "0 \<le> b" "b \<le> 360"
  shows "0 \<le> hueDistance a b" and "hueDistance a b \<le> 180"
  using assms by (auto simp: hueDistance_def min_def)

lemma hueDistance_alt: "min \<bar>a - b\<bar> (360 - \<bar>a - b\<bar>) = hueDistance a b"
  by (simp add: hueDistance_def)

section \<open>The colour wheel\<close>

lemma clamp01_range: "0 \<le> clamp01 y" "clamp01 y \<le> 1"
  by (simp_all add: clamp01_def)

lemma clamp01_lipschitz: "\<bar>clamp01 a - clamp01 b\<bar> \<le> \<bar>a - b\<bar>"
  unfolding clamp01_def by (simp add: max_def min_def)

lemma clamp01_id: "0 \<le> y \<Longrightarrow> y \<le> 1 \<Longrightarrow> clamp01 y = y"
  by (simp add: clamp01_def)




lemma wave_range:
  "0 \<le> waveR t" "waveR t \<le> 1" "0 \<le> waveG t" "waveG t \<le> 1" "0 \<le> waveB t" "waveB t \<le> 1"
  by (simp_all add: waveR_def waveG_def waveB_def clamp01_range)

lemma wave_lipschitz:
  "\<bar>waveR a - waveR b\<bar> \<le> \<bar>a - b\<bar>"
  "\<bar>waveG a - waveG b\<bar> \<le> \<bar>a - b\<bar>"
  "\<bar>waveB a - waveB b\<bar> \<le> \<bar>a - b\<bar>"
proof -
  have "\<bar>(\<bar>a - 3\<bar> - 1) - (\<bar>b - 3\<bar> - 1)\<bar> \<le> \<bar>a - b\<bar>" by linarith
  with clamp01_lipschitz [of "\<bar>a - 3\<bar> - 1" "\<bar>b - 3\<bar> - 1"]
  show "\<bar>waveR a - waveR b\<bar> \<le> \<bar>a - b\<bar>" unfolding waveR_def by linarith
  have "\<bar>(2 - \<bar>a - 2\<bar>) - (2 - \<bar>b - 2\<bar>)\<bar> \<le> \<bar>a - b\<bar>" by linarith
  with clamp01_lipschitz [of "2 - \<bar>a - 2\<bar>" "2 - \<bar>b - 2\<bar>"]
  show "\<bar>waveG a - waveG b\<bar> \<le> \<bar>a - b\<bar>" unfolding waveG_def by linarith
  have "\<bar>(2 - \<bar>a - 4\<bar>) - (2 - \<bar>b - 4\<bar>)\<bar> \<le> \<bar>a - b\<bar>" by linarith
  with clamp01_lipschitz [of "2 - \<bar>a - 4\<bar>" "2 - \<bar>b - 4\<bar>"]
  show "\<bar>waveB a - waveB b\<bar> \<le> \<bar>a - b\<bar>" unfolding waveB_def by linarith
qed



text \<open>The waves in the six sectors, against the triangle of \<open>hslToHex\<close>.\<close>

lemma jsmod_nonneg: "0 \<le> t \<Longrightarrow> jsmod t 2 = t - 2 * of_int \<lfloor>t / 2\<rfloor>"
  by (simp add: jsmod_def Let_def)

lemma tri_round: 
  assumes "0 \<le> t"
  shows "tri t = 2 * \<bar>t / 2 - of_int (round (t / 2))\<bar>"
proof -
  define z where "z = t / 2"
  define d where "d = z - of_int \<lfloor>z\<rfloor>"
  have d: "0 \<le> d" "d < 1" using floor_correct [of z] by (simp_all add: d_def)
  have m: "jsmod t 2 = 2 * d"
    using assms by (simp add: jsmod_nonneg d_def z_def)
  show ?thesis
  proof (cases "d < 1 / 2")
    case True
    then have "\<lfloor>z + 1 / 2\<rfloor> = \<lfloor>z\<rfloor>" using d unfolding d_def by (intro floor_unique) linarith+
    then have "z - of_int (round z) = d" by (simp add: round_def d_def)
    with True d show ?thesis unfolding tri_def m z_def [symmetric] by simp
  next
    case False
    then have "\<lfloor>z + 1 / 2\<rfloor> = \<lfloor>z\<rfloor> + 1"
    proof (intro floor_unique)
      show "of_int (\<lfloor>z\<rfloor> + 1) \<le> z + 1 / 2"
        using False d unfolding d_def of_int_add of_int_1 by linarith
      show "z + 1 / 2 < of_int (\<lfloor>z\<rfloor> + 1) + 1"
        using False d unfolding d_def of_int_add of_int_1 by linarith
    qed
    then have "z - of_int (round z) = d - 1" by (simp add: round_def d_def)
    with False d show ?thesis unfolding tri_def m z_def [symmetric] by simp
  qed
qed

lemma tri_lipschitz:
  assumes "0 \<le> a" and "0 \<le> b"
  shows "\<bar>tri a - tri b\<bar> \<le> \<bar>a - b\<bar>"
proof -
  have le: "tri x \<le> tri y + \<bar>x - y\<bar>" if "0 \<le> x" "0 \<le> y" for x y
  proof -
    have "\<bar>x / 2 - of_int (round (x / 2))\<bar> \<le> \<bar>x / 2 - of_int (round (y / 2))\<bar>"
      by (rule round_diff_minimal)
    also have "\<dots> \<le> \<bar>y / 2 - of_int (round (y / 2))\<bar> + \<bar>x / 2 - y / 2\<bar>" by linarith
    also have "\<bar>x / 2 - y / 2\<bar> = \<bar>x - y\<bar> / 2" by (simp add: abs_if field_simps)
    finally show ?thesis using that by (simp add: tri_round)
  qed
  from le [OF assms] le [OF assms(2,1)] show ?thesis by linarith
qed

lemma tri_range: "0 \<le> t \<Longrightarrow> 0 \<le> tri t \<and> tri t \<le> 1"
proof -
  assume t: "0 \<le> t"
  have "\<bar>t / 2 - of_int (round (t / 2))\<bar> \<le> 1 / 2" by (rule of_int_round_abs_le [of "t / 2", simplified abs_minus_commute])
  then show ?thesis using t by (simp add: tri_round)
qed

lemma tri_sector:
  assumes "of_int k \<le> t" and "t \<le> of_int k + 1" and "0 \<le> k"
  shows "tri t = (if even k then t - of_int k else of_int k + 1 - t)"
proof -
  have t: "0 \<le> t" using assms by linarith
  show ?thesis
  proof (cases "even k")
    case True
    then obtain j where k: "k = 2 * j" by (auto elim: evenE)
    have "\<bar>t / 2 - of_int (round (t / 2))\<bar> = t / 2 - of_int j"
    proof (cases "t / 2 < of_int j + 1 / 2")
      case True
      have "round (t / 2) = j"
      proof (rule round_unique)
        show "t / 2 - 1 / 2 < of_int j" using True by simp
        show "of_int j \<le> t / 2 + 1 / 2" using assms k by simp
      qed
      then show ?thesis using assms k by simp
    next
      case False
      then have h: "t / 2 = of_int j + 1 / 2" using assms k by simp
      have "round (t / 2) = j + 1" unfolding h
        by (rule round_unique) simp_all
      then show ?thesis unfolding of_int_add of_int_1 using h by linarith
    qed
    with True t k show ?thesis by (simp add: tri_round)
  next
    case False
    then obtain j where k: "k = 2 * j + 1" by (auto elim: oddE)
    have r: "round (t / 2) = j + 1"
    proof (rule round_unique)
      show "t / 2 - 1 / 2 < of_int (j + 1)" using assms k by simp
      show "of_int (j + 1) \<le> t / 2 + 1 / 2" using assms k by simp
    qed
    have "\<bar>t / 2 - of_int (j + 1)\<bar> = of_int (j + 1) - t / 2" using assms k by simp
    with False t k r show ?thesis by (simp add: tri_round)
  qed
qed


section \<open>The searches\<close>

lemma count_mset_map: "count (mset (map f xs)) v = length (filter (\<lambda>x. f x = v) xs)"
  by (induction xs) auto

lemma forEach_filter_map:
  assumes "\<And>x st. x \<in> set xs \<Longrightarrow> f x st = Some (st @ (if P x then [a x] else []))"
  shows "forEach f xs st = Some (st @ map a (filter P xs))"
  using forEach_pushes [of xs f "\<lambda>x. if P x then [a x] else []" st] assms
  by (simp add: concat_map_if)

text \<open>What a search returns of the array its loops have filled.\<close>

lemma search_result:
  assumes "keyed key cmp"
  shows "length (take n (js_sort cmp cands)) \<le> n"
    and "sorted (List.map_filter key (take n (js_sort cmp cands)))"
    and "set (take n (js_sort cmp cands)) \<subseteq> set cands"
    and "length cands \<le> n \<Longrightarrow> mset (take n (js_sort cmp cands)) = mset cands"
proof -
  show "length (take n (js_sort cmp cands)) \<le> n" by simp
  show "sorted (List.map_filter key (take n (js_sort cmp cands)))"
    by (intro sorted_map_filter_take sorted_js_sort assms)
  show "set (take n (js_sort cmp cands)) \<subseteq> set cands"
    using set_take_subset [of n "js_sort cmp cands"] by (simp add: set_js_sort)
  show "mset (take n (js_sort cmp cands)) = mset cands" if "length cands \<le> n"
    using that by (simp add: length_js_sort mset_js_sort)
qed

lemma forEach_analogous:
  assumes "\<forall>c \<in> set cs. hexToHsl (hex c) \<noteq> None"
  shows "forEach (analogousStep baseHsl) cs st =
         Some (st @ map (\<lambda>c. c\<lparr>hueDiff := Some (hueDistance (hueOf c) (h baseHsl))\<rparr>)
                      (filter (\<lambda>c. hueDistance (hueOf c) (h baseHsl) \<le> 60) cs))"
proof (rule forEach_filter_map)
  fix x st assume "x \<in> set cs"
  then obtain v where "hexToHsl (hex x) = Some v" using assms by auto
  then show "analogousStep baseHsl x st =
      Some (st @ (if hueDistance (hueOf x) (h baseHsl) \<le> 60
            then [x\<lparr>hueDiff := Some (hueDistance (hueOf x) (h baseHsl))\<rparr>] else []))"
    by (simp add: analogousStep_def hueDistance_alt hueOf_def Let_def)
qed

lemma forEach_monochromatic:
  assumes "\<forall>c \<in> set cs. hexToHsl (hex c) \<noteq> None"
  shows "forEach (monochromaticStep baseHsl) cs st =
         Some (st @ map (\<lambda>c. c\<lparr>lightnessDiff := Some \<bar>lightnessOf c - l baseHsl\<bar>\<rparr>)
                      (filter (\<lambda>c. hueDistance (hueOf c) (h baseHsl) \<le> 15) cs))"
proof (rule forEach_filter_map)
  fix x st assume "x \<in> set cs"
  then obtain v where "hexToHsl (hex x) = Some v" using assms by auto
  then show "monochromaticStep baseHsl x st =
      Some (st @ (if hueDistance (hueOf x) (h baseHsl) \<le> 15
            then [x\<lparr>lightnessDiff := Some \<bar>lightnessOf x - l baseHsl\<bar>\<rparr>] else []))"
    by (simp add: monochromaticStep_def hueDistance_alt hueOf_def lightnessOf_def Let_def)
qed

lemma forEach_complementary:
  assumes "\<forall>c \<in> set cs. hexToHsl (hex c) \<noteq> None"
  shows "forEach (complementaryStep baseHex hue) cs st =
         Some (st @ map (\<lambda>c. c\<lparr>hueDiff := Some (hueDistance (hueOf c) hue)\<rparr>)
                      (filter (\<lambda>c. hex c \<noteq> baseHex \<and> hueDistance (hueOf c) hue \<le> 45) cs))"
proof (rule forEach_filter_map)
  fix x st assume "x \<in> set cs"
  then obtain v where "hexToHsl (hex x) = Some v" using assms by auto
  then show "complementaryStep baseHex hue x st =
      Some (st @ (if hex x \<noteq> baseHex \<and> hueDistance (hueOf x) hue \<le> 45
            then [x\<lparr>hueDiff := Some (hueDistance (hueOf x) hue)\<rparr>] else []))"
    by (simp add: complementaryStep_def hueDistance_alt hueOf_def Let_def)
qed

text \<open>The score of the triadic and of the split-complementary search.\<close>

lemma forEach_triadic:
  assumes "\<forall>c \<in> set cs. hexToHsl (hex c) \<noteq> None"
  shows "forEach (triadicStep baseHex baseHsl hue1 hue2) cs st =
         Some (st @ map (\<lambda>c. c\<lparr>hueDiff := Some (min (hueDistance (hueOf c) hue1)
                           (min (hueDistance (hueOf c) hue2) (hueDistance (hueOf c) (h baseHsl))))\<rparr>)
                      (filter (\<lambda>c. hex c \<noteq> baseHex \<and> min (hueDistance (hueOf c) hue1)
                           (min (hueDistance (hueOf c) hue2) (hueDistance (hueOf c) (h baseHsl))) \<le> 45) cs))"
proof (rule forEach_filter_map)
  fix x st assume "x \<in> set cs"
  then obtain v where "hexToHsl (hex x) = Some v" using assms by auto
  then show "triadicStep baseHex baseHsl hue1 hue2 x st =
      Some (st @ (if hex x \<noteq> baseHex \<and> min (hueDistance (hueOf x) hue1)
                           (min (hueDistance (hueOf x) hue2) (hueDistance (hueOf x) (h baseHsl))) \<le> 45
            then [x\<lparr>hueDiff := Some (min (hueDistance (hueOf x) hue1)
                           (min (hueDistance (hueOf x) hue2) (hueDistance (hueOf x) (h baseHsl))))\<rparr>]
            else []))"
    by (simp add: triadicStep_def hueDistance_alt hueOf_def Let_def)
qed

lemma forEach_split:
  assumes "\<forall>c \<in> set cs. hexToHsl (hex c) \<noteq> None"
  shows "forEach (splitStep baseHex baseHsl hue1 hue2) cs st =
         Some (st @ map (\<lambda>c. c\<lparr>hueDiff := Some (min (hueDistance (hueOf c) hue1)
                           (min (hueDistance (hueOf c) hue2) (hueDistance (hueOf c) (h baseHsl))))\<rparr>)
                      (filter (\<lambda>c. hex c \<noteq> baseHex \<and> min (hueDistance (hueOf c) hue1)
                           (min (hueDistance (hueOf c) hue2) (hueDistance (hueOf c) (h baseHsl))) \<le> 30) cs))"
proof (rule forEach_filter_map)
  fix x st assume "x \<in> set cs"
  then obtain v where "hexToHsl (hex x) = Some v" using assms by auto
  then show "splitStep baseHex baseHsl hue1 hue2 x st =
      Some (st @ (if hex x \<noteq> baseHex \<and> min (hueDistance (hueOf x) hue1)
                           (min (hueDistance (hueOf x) hue2) (hueDistance (hueOf x) (h baseHsl))) \<le> 30
            then [x\<lparr>hueDiff := Some (min (hueDistance (hueOf x) hue1)
                           (min (hueDistance (hueOf x) hue2) (hueDistance (hueOf x) (h baseHsl))))\<rparr>]
            else []))"
    by (simp add: splitStep_def hueDistance_alt hueOf_def Let_def)
qed

text \<open>
  The second loop of the complementary search skips a colour whose string is already in
  the array, so of the colours with one string it pushes the first only.
\<close>

lemma find_hex_None: "find (\<lambda>c. hex c = x) st = None \<longleftrightarrow> x \<notin> hex ` set st"
  by (auto simp: find_None_iff image_iff)

lemma forEach_similar:
  assumes "\<forall>c \<in> set cs. hexToHsl (hex c) \<noteq> None"
  shows "\<exists>fallback. forEach (similarStep baseHex baseHsl) cs st = Some (st @ fallback)
    \<and> (\<forall>f \<in> set fallback. \<exists>c \<in> set cs. hex c \<noteq> baseHex \<and> hex c \<notin> hex ` set st
           \<and> hueDistance (hueOf c) (h baseHsl) \<le> 30
           \<and> f = c\<lparr>hueDiff := Some (hueDistance (hueOf c) (h baseHsl) + 1000)\<rparr>)
    \<and> (\<forall>c \<in> set cs. hex c \<noteq> baseHex \<and> hex c \<notin> hex ` set st
           \<and> hueDistance (hueOf c) (h baseHsl) \<le> 30 \<longrightarrow> hex c \<in> hex ` set fallback)
    \<and> distinct (map hex fallback)"
  using assms
proof (induction cs arbitrary: st)
  case Nil
  then show ?case by simp
next
  case (Cons c cs)
  from Cons.prems obtain v where v: "hexToHsl (hex c) = Some v" by auto
  let ?d = "\<lambda>c. hueDistance (hueOf c) (h baseHsl)"
  let ?push = "hex c \<noteq> baseHex \<and> hex c \<notin> hex ` set st \<and> ?d c \<le> 30"
  let ?new = "if ?push then [c\<lparr>hueDiff := Some (?d c + 1000)\<rparr>] else []"
  have step: "similarStep baseHex baseHsl c st = Some (st @ ?new)"
  proof (cases "hex c \<in> hex ` set st")
    case True
    then have "find (\<lambda>x. hex x = hex c) st \<noteq> None" by (simp only: find_hex_None) simp
    with True show ?thesis by (simp add: similarStep_def)
  next
    case False
    then have "find (\<lambda>x. hex x = hex c) st = None" by (simp only: find_hex_None) simp
    with False v show ?thesis
      by (simp add: similarStep_def hueDistance_alt hueOf_def Let_def)
  qed
  from Cons.IH [of "st @ ?new"] Cons.prems obtain fb where
    run: "forEach (similarStep baseHex baseHsl) cs (st @ ?new) = Some ((st @ ?new) @ fb)"
    and sound: "\<forall>f \<in> set fb. \<exists>c' \<in> set cs. hex c' \<noteq> baseHex \<and> hex c' \<notin> hex ` set (st @ ?new)
           \<and> ?d c' \<le> 30 \<and> f = c'\<lparr>hueDiff := Some (?d c' + 1000)\<rparr>"
    and complete: "\<forall>c' \<in> set cs. hex c' \<noteq> baseHex \<and> hex c' \<notin> hex ` set (st @ ?new)
           \<and> ?d c' \<le> 30 \<longrightarrow> hex c' \<in> hex ` set fb"
    and dist: "distinct (map hex fb)"
    by auto
  have 1: "forEach (similarStep baseHex baseHsl) (c # cs) st = Some (st @ (?new @ fb))"
    using step run by simp
  have 2: "\<forall>f \<in> set (?new @ fb). \<exists>c' \<in> set (c # cs). hex c' \<noteq> baseHex \<and> hex c' \<notin> hex ` set st
           \<and> ?d c' \<le> 30 \<and> f = c'\<lparr>hueDiff := Some (?d c' + 1000)\<rparr>"
  proof
    fix f assume "f \<in> set (?new @ fb)"
    then consider "f \<in> set ?new" | "f \<in> set fb" by auto
    then show "\<exists>c' \<in> set (c # cs). hex c' \<noteq> baseHex \<and> hex c' \<notin> hex ` set st
           \<and> ?d c' \<le> 30 \<and> f = c'\<lparr>hueDiff := Some (?d c' + 1000)\<rparr>"
    proof cases
      case 1
      then show ?thesis by (auto split: if_splits)
    next
      case 2
      with sound obtain c' where "c' \<in> set cs" "hex c' \<noteq> baseHex"
        "hex c' \<notin> hex ` set (st @ ?new)" "?d c' \<le> 30" "f = c'\<lparr>hueDiff := Some (?d c' + 1000)\<rparr>"
        by blast
      then show ?thesis by auto
    qed
  qed
  have 3: "\<forall>c' \<in> set (c # cs). hex c' \<noteq> baseHex \<and> hex c' \<notin> hex ` set st \<and> ?d c' \<le> 30
           \<longrightarrow> hex c' \<in> hex ` set (?new @ fb)"
  proof (intro ballI impI)
    fix c' assume mem: "c' \<in> set (c # cs)"
      and q: "hex c' \<noteq> baseHex \<and> hex c' \<notin> hex ` set st \<and> ?d c' \<le> 30"
    show "hex c' \<in> hex ` set (?new @ fb)"
    proof (cases "hex c' \<in> hex ` set ?new")
      case True
      then show ?thesis by auto
    next
      case False
      then have "c' \<noteq> c" using q by auto
      with mem have "c' \<in> set cs" by simp
      moreover have "hex c' \<notin> hex ` set (st @ ?new)" using q False by auto
      ultimately have "hex c' \<in> hex ` set fb" using complete q by blast
      then show ?thesis by auto
    qed
  qed
  have 4: "distinct (map hex (?new @ fb))"
  proof (cases ?push)
    case False
    then have n: "?new = []" by (rule if_not_P)
    show ?thesis unfolding n using dist by simp
  next
    case True
    then have n: "?new = [c\<lparr>hueDiff := Some (?d c + 1000)\<rparr>]" by (rule if_P)
    have ne: "hex f \<noteq> hex c" if "f \<in> set fb" for f
    proof -
      from sound that obtain c' where "hex c' \<notin> hex ` set (st @ ?new)"
        "f = c'\<lparr>hueDiff := Some (?d c' + 1000)\<rparr>" by blast
      then show ?thesis unfolding n by auto
    qed
    have "hex c \<notin> hex ` set fb"
    proof
      assume "hex c \<in> hex ` set fb"
      then obtain f where "f \<in> set fb" "hex c = hex f" by auto
      with ne [of f] show False by simp
    qed
    then show ?thesis unfolding n using dist by simp
  qed
  from 1 2 3 4 show ?case by blast
qed

lemma pushBase_cases:
  obtains (absent) "pushBase cs baseHex = []" "baseHex \<notin> hex ` set cs"
  | (present) b where "pushBase cs baseHex = [b]" "find (\<lambda>c. hex c = baseHex) cs = Some b"
      "b \<in> set cs" "hex b = baseHex"
proof (cases "find (\<lambda>c. hex c = baseHex) cs")
  case None
  then have "pushBase cs baseHex = []" by (simp add: pushBase_def)
  moreover have "baseHex \<notin> hex ` set cs" using None by (simp only: find_hex_None) simp
  ultimately show ?thesis by (rule absent)
next
  case (Some b)
  then have "pushBase cs baseHex = [b]" by (simp add: pushBase_def)
  moreover have "b \<in> set cs" "hex b = baseHex"
    using Some by (auto simp: find_Some_iff)
  ultimately show ?thesis using Some by (intro present)
qed


section \<open>The analogous search\<close>

text \<open>
  Claim C8. When every string converts, \<open>findAnalogousColorsFromCollection\<close> returns
  colours of the collection whose hue is at most 60 degrees (inclusive) from the base hue on
  the circle, each annotated with that distance, and it returns all of them when \<open>count\<close>
  does not cut the list. In particular, for base hue 0 and a collection whose hues are 10,
  70 and 200, the result is the colour of hue 10 alone.
\<close>

theorem analogous_window:
  assumes "hexToHsl baseHex = Some baseHsl"
    and "\<forall>c \<in> set cs. hexToHsl (hex c) \<noteq> None"
  shows "\<exists>found. findAnalogousColorsFromCollection cs baseHex cnt = Some found
    \<and> (\<forall>r \<in> set found. \<exists>c \<in> set cs.
          hueDistance (hueOf c) (h baseHsl) \<le> 60
          \<and> r = c\<lparr>hueDiff := Some (hueDistance (hueOf c) (h baseHsl))\<rparr>)
    \<and> (length (filter (\<lambda>c. hueDistance (hueOf c) (h baseHsl) \<le> 60) cs) \<le> cnt
         \<longrightarrow> mset found =
             mset (map (\<lambda>c. c\<lparr>hueDiff := Some (hueDistance (hueOf c) (h baseHsl))\<rparr>)
                    (filter (\<lambda>c. hueDistance (hueOf c) (h baseHsl) \<le> 60) cs)))
    \<and> (h baseHsl = 0 \<and> mset (map (\<lambda>c. hueOf c) cs) = {#10, 70, 200#} \<and> 1 \<le> cnt
         \<longrightarrow> (\<exists>c \<in> set cs. hueOf c = 10 \<and> found = [c\<lparr>hueDiff := Some 10\<rparr>]))"
proof -
  let ?d = "\<lambda>c. hueDistance (hueOf c) (h baseHsl)"
  let ?cands = "map (\<lambda>c. c\<lparr>hueDiff := Some (?d c)\<rparr>) (filter (\<lambda>c. ?d c \<le> 60) cs)"
  let ?found = "take cnt (js_sort byHueDiff ?cands)"
  have run: "findAnalogousColorsFromCollection cs baseHex cnt = Some ?found"
    using assms(1) forEach_analogous [OF assms(2), of baseHsl "[]"]
    by (simp add: findAnalogousColorsFromCollection_def)
  have sub: "set ?found \<subseteq> set ?cands"
    using set_take_subset [of cnt "js_sort byHueDiff ?cands"] by (simp add: set_js_sort)
  have a: "\<forall>r \<in> set ?found. \<exists>c \<in> set cs. ?d c \<le> 60 \<and> r = c\<lparr>hueDiff := Some (?d c)\<rparr>"
    using sub by auto
  have b: "length (filter (\<lambda>c. ?d c \<le> 60) cs) \<le> cnt \<longrightarrow> mset ?found = mset ?cands"
    by (simp add: length_js_sort mset_js_sort)
  have c: "\<exists>c \<in> set cs. hueOf c = 10 \<and> ?found = [c\<lparr>hueDiff := Some 10\<rparr>]"
    if hyp: "h baseHsl = 0" "mset (map (\<lambda>c. hueOf c) cs) = {#10, 70, 200#}" "1 \<le> cnt"
  proof -
    have "set_mset (mset (map (\<lambda>c. hueOf c) cs)) = {10, 70, 200}"
      unfolding hyp(2) by simp
    then have hues: "\<forall>c \<in> set cs. hueOf c \<in> {10, 70, 200}"
      by auto
    have q: "filter (\<lambda>c. ?d c \<le> 60) cs = filter (\<lambda>c. hueOf c = 10) cs"
      by (rule filter_cong) (use hues hyp(1) in \<open>auto simp: hueDistance_def\<close>)
    have "count (mset (map (\<lambda>c. hueOf c) cs)) 10 = 1"
      using hyp(2) by simp
    then have "length (filter (\<lambda>c. hueOf c = 10) cs) = 1"
      using count_mset_map [of "\<lambda>c. hueOf c" cs 10] by simp
    then obtain c where c: "filter (\<lambda>c. hueOf c = 10) cs = [c]"
      by (cases "filter (\<lambda>c. hueOf c = 10) cs") auto
    then have "c \<in> set (filter (\<lambda>c. hueOf c = 10) cs)"
      by simp
    then have mem: "c \<in> set cs" and hc: "hueOf c = 10"
      by simp_all
    have "?cands = [c\<lparr>hueDiff := Some 10\<rparr>]"
      using q c hc hyp(1) by (simp add: hueDistance_def)
    then have "?found = [c\<lparr>hueDiff := Some 10\<rparr>]"
      using hyp(3) by (simp add: js_sort_def)
    with mem hc show ?thesis by blast
  qed
  from run a b c show ?thesis by blast
qed

theorem analogous_window_witness:
  "findAnalogousColorsFromCollection
     [\<lparr>hex = ''#FF2B00'', name = ''orange red'', hueDiff = None, lightnessDiff = None\<rparr>,
      \<lparr>hex = ''#D4FF00'', name = ''lime'', hueDiff = None, lightnessDiff = None\<rparr>,
      \<lparr>hex = ''#00AAFF'', name = ''azure'', hueDiff = None, lightnessDiff = None\<rparr>]
     ''#FF0000'' 5
   = Some [\<lparr>hex = ''#FF2B00'', name = ''orange red'', hueDiff = Some 10, lightnessDiff = None\<rparr>]"
  using analogous_window [of "''#FF0000''" "\<lparr>h = 0, s = 100, l = 50\<rparr>"
     "[\<lparr>hex = ''#FF2B00'', name = ''orange red'', hueDiff = None, lightnessDiff = None\<rparr>,
      \<lparr>hex = ''#D4FF00'', name = ''lime'', hueDiff = None, lightnessDiff = None\<rparr>,
      \<lparr>hex = ''#00AAFF'', name = ''azure'', hueDiff = None, lightnessDiff = None\<rparr>]" 5]
  by (auto simp: hueOf_def hsl_FF0000 hsl_FF2B00 hsl_D4FF00 hsl_00AAFF)


section \<open>The monochromatic search\<close>
lemma sorted_precedes:
  assumes "sorted (List.map_filter key xs)" and "i < length xs" and "j < length xs"
    and "key (xs ! i) = Some a" and "key (xs ! j) = Some b" and "a < b"
  shows "i < j"
proof (rule ccontr)
  assume "\<not> i < j"
  then have "j \<le> i" by simp
  then have "b \<le> a"
    using assms(1-5)
  proof (induction xs arbitrary: i j)
    case Nil
    then show ?case by simp
  next
    case (Cons x xs)
    have tail: "sorted (List.map_filter key xs)"
      using Cons.prems(2) by (auto simp: map_filter_Cons split: option.splits)
    show ?case
    proof (cases j)
      case (Suc j')
      with Cons.prems obtain i' where i: "i = Suc i'" by (cases i) auto
      from Cons.IH [of j' i'] Cons.prems tail Suc i show ?thesis by simp
    next
      case 0
      show ?thesis
      proof (cases i)
        case 0
        with \<open>j = 0\<close> Cons.prems show ?thesis by simp
      next
        case (Suc i')
        with Cons.prems have "a \<in> set (List.map_filter key xs)"
          by (auto simp: set_map_filter)
        with Cons.prems 0 show ?thesis by (auto simp: map_filter_Cons)
      qed
    qed
  qed
  with assms(6) show False by simp
qed

text \<open>
  Claim C6. Among the colours within 15 degrees of the base hue, the monochromatic search
  ranks by the distance of the lightness from the base's, not by the distance of the hue:
  the result is a list of such colours, each annotated with its lightness distance, in
  ascending order of it; a qualifying colour with a smaller lightness distance than a
  returned one is returned too, before it; and of two qualifying colours that make up the
  collection, the one nearer in hue but farther in lightness comes second.
\<close>

theorem monochromatic_ranks_by_lightness:
  assumes "hexToHsl baseHex = Some baseHsl"
    and "\<forall>c \<in> set cs. hexToHsl (hex c) \<noteq> None"
  shows "\<exists>found. findMonochromaticColorsFromCollection cs baseHex cnt = Some found
    \<and> sorted (List.map_filter lightnessDiff found)
    \<and> (\<forall>r \<in> set found. \<exists>c \<in> set cs. hueDistance (hueOf c) (h baseHsl) \<le> 15
          \<and> r = c\<lparr>lightnessDiff := Some \<bar>lightnessOf c - l baseHsl\<bar>\<rparr>)
    \<and> (\<forall>a \<in> set cs. \<forall>i < length found.
          hueDistance (hueOf a) (h baseHsl) \<le> 15
          \<and> (\<exists>d. lightnessDiff (found ! i) = Some d \<and> \<bar>lightnessOf a - l baseHsl\<bar> < d)
          \<longrightarrow> (\<exists>j < i. found ! j = a\<lparr>lightnessDiff := Some \<bar>lightnessOf a - l baseHsl\<bar>\<rparr>))
    \<and> (\<forall>a b. (cs = [a, b] \<or> cs = [b, a])
          \<and> hueDistance (hueOf a) (h baseHsl) < hueDistance (hueOf b) (h baseHsl)
          \<and> hueDistance (hueOf b) (h baseHsl) \<le> 15
          \<and> \<bar>lightnessOf b - l baseHsl\<bar> < \<bar>lightnessOf a - l baseHsl\<bar> \<and> 2 \<le> cnt
          \<longrightarrow> found = [b\<lparr>lightnessDiff := Some \<bar>lightnessOf b - l baseHsl\<bar>\<rparr>,
                       a\<lparr>lightnessDiff := Some \<bar>lightnessOf a - l baseHsl\<bar>\<rparr>])"
proof -
  let ?q = "\<lambda>c. hueDistance (hueOf c) (h baseHsl) \<le> 15"
  let ?an = "\<lambda>c. c\<lparr>lightnessDiff := Some \<bar>lightnessOf c - l baseHsl\<bar>\<rparr>"
  let ?cands = "map ?an (filter ?q cs)"
  let ?sorted = "js_sort byLightnessDiff ?cands"
  let ?found = "take cnt ?sorted"
  have run: "findMonochromaticColorsFromCollection cs baseHex cnt = Some ?found"
    using assms(1) forEach_monochromatic [OF assms(2), of baseHsl "[]"]
    by (simp add: findMonochromaticColorsFromCollection_def)
  note res = search_result [OF keyed_byLightnessDiff, where n = cnt and cands = ?cands]
  have srt: "sorted (List.map_filter lightnessDiff ?sorted)"
    by (rule sorted_js_sort [OF keyed_byLightnessDiff])
  have 1: "\<forall>r \<in> set ?found. \<exists>c \<in> set cs. ?q c \<and> r = ?an c"
    using res(3) by auto
  have 2: "\<exists>j < i. ?found ! j = ?an a"
    if a: "a \<in> set cs" "?q a" and i: "i < length ?found"
      and d: "lightnessDiff (?found ! i) = Some d" "\<bar>lightnessOf a - l baseHsl\<bar> < d" for a i d
  proof -
    have "?an a \<in> set ?sorted" using a by (simp add: set_js_sort)
    then obtain j where j: "j < length ?sorted" "?sorted ! j = ?an a"
      by (auto simp: in_set_conv_nth)
    have i': "i < length ?sorted" "i < cnt" "?sorted ! i = ?found ! i" using i by simp_all
    have "j < i"
      using srt j(1) i'(1) _ _ d(2)
    proof (rule sorted_precedes)
      show "lightnessDiff (?sorted ! j) = Some \<bar>lightnessOf a - l baseHsl\<bar>"
        by (simp add: j(2))
      show "lightnessDiff (?sorted ! i) = Some d" using d(1) i'(3) by simp
    qed
    moreover from this i'(2) have "?found ! j = ?an a" using j(2) by simp
    ultimately show ?thesis by blast
  qed
  have 3: "?found = [?an b, ?an a]"
    if "cs = [a, b] \<or> cs = [b, a]" "?q a" "?q b"
      "\<bar>lightnessOf b - l baseHsl\<bar> < \<bar>lightnessOf a - l baseHsl\<bar>" "2 \<le> cnt" for a b
    using that by (auto simp: js_sort_def byLightnessDiff_def negative_def)
  show ?thesis
  proof (intro exI conjI)
    show "findMonochromaticColorsFromCollection cs baseHex cnt = Some ?found" by (rule run)
    show "sorted (List.map_filter lightnessDiff ?found)" by (rule res(2))
    show "\<forall>r \<in> set ?found. \<exists>c \<in> set cs. ?q c \<and> r = ?an c" by (rule 1)
    show "\<forall>a \<in> set cs. \<forall>i < length ?found.
          ?q a \<and> (\<exists>d. lightnessDiff (?found ! i) = Some d \<and> \<bar>lightnessOf a - l baseHsl\<bar> < d)
          \<longrightarrow> (\<exists>j < i. ?found ! j = ?an a)"
      using 2 by blast
    show "\<forall>a b. (cs = [a, b] \<or> cs = [b, a])
          \<and> hueDistance (hueOf a) (h baseHsl) < hueDistance (hueOf b) (h baseHsl)
          \<and> ?q b \<and> \<bar>lightnessOf b - l baseHsl\<bar> < \<bar>lightnessOf a - l baseHsl\<bar> \<and> 2 \<le> cnt
          \<longrightarrow> ?found = [?an b, ?an a]"
    proof (intro allI impI)
      fix a b
      assume h: "(cs = [a, b] \<or> cs = [b, a])
          \<and> hueDistance (hueOf a) (h baseHsl) < hueDistance (hueOf b) (h baseHsl)
          \<and> ?q b \<and> \<bar>lightnessOf b - l baseHsl\<bar> < \<bar>lightnessOf a - l baseHsl\<bar> \<and> 2 \<le> cnt"
      then have "?q a" by linarith
      with h show "?found = [?an b, ?an a]" by (intro 3) simp_all
    qed
  qed
qed

theorem monochromatic_ranks_by_lightness_witness:
  "findMonochromaticColorsFromCollection
     [\<lparr>hex = ''#800000'', name = ''maroon'', hueDiff = None, lightnessDiff = None\<rparr>,
      \<lparr>hex = ''#FF2B00'', name = ''orange red'', hueDiff = None, lightnessDiff = None\<rparr>]
     ''#FF0000'' 5
   = Some [\<lparr>hex = ''#FF2B00'', name = ''orange red'', hueDiff = None, lightnessDiff = Some 0\<rparr>,
           \<lparr>hex = ''#800000'', name = ''maroon'', hueDiff = None, lightnessDiff = Some 25\<rparr>]"
proof -
  let ?a = "\<lparr>hex = ''#800000'', name = ''maroon'', hueDiff = None, lightnessDiff = None\<rparr>"
  let ?b = "\<lparr>hex = ''#FF2B00'', name = ''orange red'', hueDiff = None, lightnessDiff = None\<rparr>"
  have valid: "\<forall>c \<in> set [?a, ?b]. hexToHsl (hex c) \<noteq> None"
    by (simp add: hsl_800000 hsl_FF2B00)
  have facts: "hueOf ?a = 0" "hueOf ?b = 10" "lightnessOf ?a = 25" "lightnessOf ?b = 50"
    by (simp_all add: hueOf_def lightnessOf_def hsl_800000 hsl_FF2B00)
  from monochromatic_ranks_by_lightness [OF hsl_FF0000 valid, of 5]
  obtain found where
    run: "findMonochromaticColorsFromCollection [?a, ?b] ''#FF0000'' 5 = Some found"
    and two: "\<forall>a b. ([?a, ?b] = [a, b] \<or> [?a, ?b] = [b, a])
          \<and> hueDistance (hueOf a) (h \<lparr>h = 0, s = 100, l = 50\<rparr>)
              < hueDistance (hueOf b) (h \<lparr>h = 0, s = 100, l = 50\<rparr>)
          \<and> hueDistance (hueOf b) (h \<lparr>h = 0, s = 100, l = 50\<rparr>) \<le> 15
          \<and> \<bar>lightnessOf b - l \<lparr>h = 0, s = 100, l = 50\<rparr>\<bar>
              < \<bar>lightnessOf a - l \<lparr>h = 0, s = 100, l = 50\<rparr>\<bar> \<and> 2 \<le> (5::nat)
          \<longrightarrow> found = [b\<lparr>lightnessDiff := Some \<bar>lightnessOf b - l \<lparr>h = 0, s = 100, l = 50\<rparr>\<bar>\<rparr>,
                       a\<lparr>lightnessDiff := Some \<bar>lightnessOf a - l \<lparr>h = 0, s = 100, l = 50\<rparr>\<bar>\<rparr>]"
    by blast
  from two [rule_format, of ?a ?b] have "found =
     [?b\<lparr>lightnessDiff := Some \<bar>lightnessOf ?b - 50\<bar>\<rparr>, ?a\<lparr>lightnessDiff := Some \<bar>lightnessOf ?a - 50\<bar>\<rparr>]"
    by (simp add: facts hueDistance_def)
  with run show ?thesis by (simp add: facts)
qed


section \<open>The suggestion aggregator\<close>

lemma snd_enumerate_mem: "x \<in> set (enumerate n xs) \<Longrightarrow> snd x \<in> set xs"
proof -
  assume "x \<in> set (enumerate n xs)"
  then have "fst x - n < length xs" and "xs ! (fst x - n) = snd x"
    by (auto simp: in_set_enumerate_eq)
  then show ?thesis using nth_mem [of "fst x - n" xs] by simp
qed

lemma forEach_total:
  assumes "\<And>x st. x \<in> set xs \<Longrightarrow> f x st \<noteq> None"
  shows "forEach f xs st \<noteq> None"
  using assms
proof (induction xs arbitrary: st)
  case Nil
  then show ?case by simp
next
  case (Cons x xs)
  then obtain st' where "f x st = Some st'" by fastforce
  with Cons show ?case by simp
qed

lemma findAnalogous_total:
  assumes "hexToHsl baseHex \<noteq> None" and "\<forall>c \<in> set cs. hexToHsl (hex c) \<noteq> None"
  shows "findAnalogousColorsFromCollection cs baseHex cnt \<noteq> None"
  using assms(1) forEach_analogous [OF assms(2)]
  by (auto simp: findAnalogousColorsFromCollection_def)

lemma findComplementary_total:
  assumes "hexToHsl baseHex \<noteq> None" and "\<forall>c \<in> set cs. hexToHsl (hex c) \<noteq> None"
  shows "findComplementaryColorsFromCollection cs baseHex cnt \<noteq> None"
proof -
  from assms(1) obtain v where v: "hexToHsl baseHex = Some v" by auto
  from forEach_similar [OF assms(2)] obtain fb where
    "forEach (similarStep baseHex v) cs
       (pushBase cs baseHex @ map (\<lambda>c. c\<lparr>hueDiff := Some (hueDistance (hueOf c) ((h v + 180) mod 360))\<rparr>)
          (filter (\<lambda>c. hex c \<noteq> baseHex \<and> hueDistance (hueOf c) ((h v + 180) mod 360) \<le> 45) cs))
     = Some ((pushBase cs baseHex @ map (\<lambda>c. c\<lparr>hueDiff := Some (hueDistance (hueOf c) ((h v + 180) mod 360))\<rparr>)
          (filter (\<lambda>c. hex c \<noteq> baseHex \<and> hueDistance (hueOf c) ((h v + 180) mod 360) \<le> 45) cs)) @ fb)"
    by blast
  then show ?thesis
    using v forEach_complementary [OF assms(2)]
    by (simp add: findComplementaryColorsFromCollection_def Let_def)
qed

lemma findTriadic_total:
  assumes "hexToHsl baseHex \<noteq> None" and "\<forall>c \<in> set cs. hexToHsl (hex c) \<noteq> None"
  shows "findTriadicColorsFromCollection cs baseHex cnt \<noteq> None"
  using assms(1) forEach_triadic [OF assms(2)]
  by (auto simp: findTriadicColorsFromCollection_def Let_def)

lemma suggestStep_total:
  assumes "hexToHsl (hex base) \<noteq> None" and "\<forall>c \<in> set cs. hexToHsl (hex c) \<noteq> None"
  shows "suggestStep cs (index, base) st \<noteq> None"
proof -
  from findAnalogous_total [OF assms, of 5] obtain a where
    a: "findAnalogousColorsFromCollection cs (hex base) 5 = Some a" by auto
  from findComplementary_total [OF assms, of 4] obtain c where
    c: "findComplementaryColorsFromCollection cs (hex base) 4 = Some c" by auto
  from findTriadic_total [OF assms, of 6] obtain t where
    t: "findTriadicColorsFromCollection cs (hex base) 6 = Some t" by auto
  show ?thesis by (simp add: suggestStep_def a c t)
qed

text \<open>
  Claim C7. \<open>generateSmartPaletteSuggestions\<close> returns the empty list for a collection of
  fewer than three colours; and when every string converts, it returns a list, each
  suggestion of which has at least three colours.
\<close>

theorem suggestions_have_three_colors:
  "(length cs < 3 \<longrightarrow> generateSmartPaletteSuggestions cs = Some [])
   \<and> ((\<forall>c \<in> set cs. hexToHsl (hex c) \<noteq> None) \<longrightarrow>
        (\<exists>suggestions. generateSmartPaletteSuggestions cs = Some suggestions
           \<and> (\<forall>s \<in> set suggestions. 3 \<le> length (colors s))))"
proof (intro conjI impI)
  assume "length cs < 3"
  then show "generateSmartPaletteSuggestions cs = Some []"
    by (simp add: generateSmartPaletteSuggestions_def)
next
  assume valid: "\<forall>c \<in> set cs. hexToHsl (hex c) \<noteq> None"
  show "\<exists>suggestions. generateSmartPaletteSuggestions cs = Some suggestions
           \<and> (\<forall>s \<in> set suggestions. 3 \<le> length (colors s))"
  proof (cases "length cs < 3")
    case True
    then show ?thesis by (simp add: generateSmartPaletteSuggestions_def)
  next
    case False
    have "forEach (suggestStep cs) (enumerate 0 (take (min 5 (length cs)) cs)) [] \<noteq> None"
    proof (rule forEach_total)
      fix x :: "nat \<times> 'a color_scheme" and st
      assume "x \<in> set (enumerate 0 (take (min 5 (length cs)) cs))"
      then have "snd x \<in> set (take (min 5 (length cs)) cs)"
        by (rule snd_enumerate_mem)
      then have "snd x \<in> set cs" by (rule in_set_takeD)
      with valid have "hexToHsl (hex (snd x)) \<noteq> None" by simp
      from suggestStep_total [OF this valid, of "fst x" st]
      show "suggestStep cs x st \<noteq> None" by simp
    qed
    then obtain sug where
      "forEach (suggestStep cs) (enumerate 0 (take (min 5 (length cs)) cs)) [] = Some sug"
      by auto
    with False show ?thesis by (simp add: generateSmartPaletteSuggestions_def Let_def)
  qed
qed

theorem suggestions_have_three_colors_witness:
  "generateSmartPaletteSuggestions
     [\<lparr>hex = ''#FF0000'', name = ''red'', hueDiff = None, lightnessDiff = None\<rparr>,
      \<lparr>hex = ''#FF2B00'', name = ''orange red'', hueDiff = None, lightnessDiff = None\<rparr>] = Some []
   \<and> (\<exists>suggestions.
        generateSmartPaletteSuggestions
          [\<lparr>hex = ''#FF0000'', name = ''red'', hueDiff = None, lightnessDiff = None\<rparr>,
           \<lparr>hex = ''#FF2B00'', name = ''orange red'', hueDiff = None, lightnessDiff = None\<rparr>,
           \<lparr>hex = ''#FF5500'', name = ''orange'', hueDiff = None, lightnessDiff = None\<rparr>]
        = Some suggestions
        \<and> list_all (\<lambda>s. 3 \<le> length (colors s)) suggestions)"
  using suggestions_have_three_colors
          [of "[\<lparr>hex = ''#FF0000'', name = ''red'', hueDiff = None, lightnessDiff = None\<rparr>,
                \<lparr>hex = ''#FF2B00'', name = ''orange red'', hueDiff = None, lightnessDiff = None\<rparr>]"]
        suggestions_have_three_colors
          [of "[\<lparr>hex = ''#FF0000'', name = ''red'', hueDiff = None, lightnessDiff = None\<rparr>,
                \<lparr>hex = ''#FF2B00'', name = ''orange red'', hueDiff = None, lightnessDiff = None\<rparr>,
                \<lparr>hex = ''#FF5500'', name = ''orange'', hueDiff = None, lightnessDiff = None\<rparr>]"]
  by (simp add: hsl_FF0000 hsl_FF2B00 hsl_FF5500 list_all_iff)


section \<open>The complementary search\<close>

lemma hueOf_cong: "hex c = hex c' \<Longrightarrow> hueOf c = hueOf c'"
  by (simp add: hueOf_def)

lemma hueOf_range:
  assumes "hexToHsl (hex c) \<noteq> None"
  shows "0 \<le> hueOf c" and "hueOf c \<le> 360"
proof -
  from assms obtain v where "hexToHsl (hex c) = Some v" by auto
  from hexToHsl_range [OF this] this show "0 \<le> hueOf c" and "hueOf c \<le> 360"
    by (simp_all add: hueOf_def)
qed

text \<open>The array that the two loops of the complementary search fill, before the sort.\<close>

lemma complementary_run:
  assumes "hexToHsl baseHex = Some baseHsl"
    and "\<forall>c \<in> set cs. hexToHsl (hex c) \<noteq> None"
  shows "\<exists>fallback.
      findComplementaryColorsFromCollection cs baseHex cnt =
        Some (take cnt (js_sort byHueDiff (pushBase cs baseHex
          @ map (\<lambda>c. c\<lparr>hueDiff := Some (hueDistance (hueOf c) ((h baseHsl + 180) mod 360))\<rparr>)
              (filter (\<lambda>c. hex c \<noteq> baseHex
                 \<and> hueDistance (hueOf c) ((h baseHsl + 180) mod 360) \<le> 45) cs)
          @ fallback)))
    \<and> (\<forall>f \<in> set fallback. \<exists>c \<in> set cs. hex c \<noteq> baseHex
           \<and> \<not> hueDistance (hueOf c) ((h baseHsl + 180) mod 360) \<le> 45
           \<and> hueDistance (hueOf c) (h baseHsl) \<le> 30
           \<and> f = c\<lparr>hueDiff := Some (hueDistance (hueOf c) (h baseHsl) + 1000)\<rparr>)
    \<and> (\<forall>c \<in> set cs. hex c \<noteq> baseHex
           \<and> \<not> hueDistance (hueOf c) ((h baseHsl + 180) mod 360) \<le> 45
           \<and> hueDistance (hueOf c) (h baseHsl) \<le> 30 \<longrightarrow> hex c \<in> hex ` set fallback)
    \<and> distinct (map hex fallback)"
proof -
  let ?hue = "(h baseHsl + 180) mod 360"
  let ?dC = "\<lambda>c. hueDistance (hueOf c) ?hue"
  let ?dB = "\<lambda>c. hueDistance (hueOf c) (h baseHsl)"
  let ?P = "map (\<lambda>c. c\<lparr>hueDiff := Some (?dC c)\<rparr>) (filter (\<lambda>c. hex c \<noteq> baseHex \<and> ?dC c \<le> 45) cs)"
  let ?st = "pushBase cs baseHex @ ?P"
  have first: "forEach (complementaryStep baseHex ?hue) cs (pushBase cs baseHex) = Some ?st"
    by (rule forEach_complementary [OF assms(2)])
  from forEach_similar [OF assms(2), of baseHex baseHsl ?st] obtain fb where
    run: "forEach (similarStep baseHex baseHsl) cs ?st = Some (?st @ fb)"
    and sound: "\<forall>f \<in> set fb. \<exists>c \<in> set cs. hex c \<noteq> baseHex \<and> hex c \<notin> hex ` set ?st
           \<and> ?dB c \<le> 30 \<and> f = c\<lparr>hueDiff := Some (?dB c + 1000)\<rparr>"
    and complete: "\<forall>c \<in> set cs. hex c \<noteq> baseHex \<and> hex c \<notin> hex ` set ?st
           \<and> ?dB c \<le> 30 \<longrightarrow> hex c \<in> hex ` set fb"
    and dist: "distinct (map hex fb)"
    by blast
  have selected: "hex c \<in> hex ` set ?st \<longleftrightarrow> ?dC c \<le> 45"
    if c: "c \<in> set cs" "hex c \<noteq> baseHex" for c
  proof
    assume "hex c \<in> hex ` set ?st"
    then consider "hex c \<in> hex ` set (pushBase cs baseHex)" | "hex c \<in> hex ` set ?P" by auto
    then show "?dC c \<le> 45"
    proof cases
      case 1
      then have False using c(2)
        by (rule_tac pushBase_cases [where cs = cs and baseHex = baseHex]) auto
      then show ?thesis ..
    next
      case 2
      then obtain c' where "c' \<in> set cs" "hex c' = hex c" "?dC c' \<le> 45" by auto
      then show ?thesis using hueOf_cong [of c' c] by simp
    qed
  next
    assume "?dC c \<le> 45"
    with c have "c\<lparr>hueDiff := Some (?dC c)\<rparr> \<in> set ?P" by simp
    then have "hex (c\<lparr>hueDiff := Some (?dC c)\<rparr>) \<in> hex ` set ?st" by (intro imageI) simp
    then show "hex c \<in> hex ` set ?st" by simp
  qed
  have 1: "findComplementaryColorsFromCollection cs baseHex cnt =
        Some (take cnt (js_sort byHueDiff (pushBase cs baseHex @ ?P @ fb)))"
    using assms(1) first run by (simp add: findComplementaryColorsFromCollection_def Let_def)
  have 2: "\<forall>f \<in> set fb. \<exists>c \<in> set cs. hex c \<noteq> baseHex \<and> \<not> ?dC c \<le> 45
           \<and> ?dB c \<le> 30 \<and> f = c\<lparr>hueDiff := Some (?dB c + 1000)\<rparr>"
  proof
    fix f assume "f \<in> set fb"
    with sound obtain c where c: "c \<in> set cs" "hex c \<noteq> baseHex" "hex c \<notin> hex ` set ?st"
      "?dB c \<le> 30" "f = c\<lparr>hueDiff := Some (?dB c + 1000)\<rparr>" by blast
    with selected [OF c(1,2)] have "\<not> ?dC c \<le> 45" by simp
    with c show "\<exists>c \<in> set cs. hex c \<noteq> baseHex \<and> \<not> ?dC c \<le> 45
           \<and> ?dB c \<le> 30 \<and> f = c\<lparr>hueDiff := Some (?dB c + 1000)\<rparr>" by blast
  qed
  have 3: "\<forall>c \<in> set cs. hex c \<noteq> baseHex \<and> \<not> ?dC c \<le> 45 \<and> ?dB c \<le> 30
           \<longrightarrow> hex c \<in> hex ` set fb"
  proof (intro ballI impI)
    fix c assume c: "c \<in> set cs" and q: "hex c \<noteq> baseHex \<and> \<not> ?dC c \<le> 45 \<and> ?dB c \<le> 30"
    then have "hex c \<notin> hex ` set ?st" using selected [of c] by simp
    with complete c q show "hex c \<in> hex ` set fb" by blast
  qed
  from 1 2 3 dist show ?thesis by blast
qed

lemma sorted_split_at:
  assumes "sorted (List.map_filter key xs)" and "\<forall>x \<in> set xs. key x \<noteq> None"
  shows "xs = filter (\<lambda>x. the (key x) < t) xs @ filter (\<lambda>x. \<not> the (key x) < t) xs"
  using assms
proof (induction xs)
  case Nil
  then show ?case by simp
next
  case (Cons x xs)
  from Cons.prems(2) obtain k where k: "key x = Some k" by auto
  have tail: "sorted (List.map_filter key xs)" and later: "\<forall>j \<in> set (List.map_filter key xs). k \<le> j"
    using Cons.prems(1) k by (simp_all add: map_filter_Cons)
  have ih: "xs = filter (\<lambda>x. the (key x) < t) xs @ filter (\<lambda>x. \<not> the (key x) < t) xs"
    using Cons.IH tail Cons.prems(2) by simp
  show ?case
  proof (cases "k < t")
    case True
    with k ih show ?thesis by simp
  next
    case False
    have "\<not> the (key y) < t" if "y \<in> set xs" for y
    proof -
      from Cons.prems(2) that obtain j where j: "key y = Some j" by auto
      with that have "j \<in> set (List.map_filter key xs)" by (auto simp: set_map_filter)
      with later False j show ?thesis by auto
    qed
    then have "filter (\<lambda>x. the (key x) < t) xs = []" "filter (\<lambda>x. \<not> the (key x) < t) xs = xs"
      by (simp_all add: filter_empty_conv filter_id_conv)
    with k False show ?thesis by simp
  qed
qed


text \<open>
  Where the search does put the base first. When every string converts, the first record of
  the collection whose \<open>hex\<close> is the base string carries no \<open>hueDiff\<close> of its own and \<open>count\<close>
  is at least 1, the complementary search returns that record first; after it come the
  primary matches (colours within 45 degrees of the complementary hue, annotated with that
  distance) and after those the fallback matches (colours within 30 degrees of the base hue,
  annotated with that distance plus 1000), each group in ascending order of its annotation.
\<close>

theorem complementary_base_first:
  assumes "hexToHsl baseHex = Some baseHsl"
    and "\<forall>c \<in> set cs. hexToHsl (hex c) \<noteq> None"
    and "find (\<lambda>c. hex c = baseHex) cs = Some b"
    and "hueDiff b = None"
    and "1 \<le> cnt"
  shows "\<exists>primary fallback.
      findComplementaryColorsFromCollection cs baseHex cnt = Some (b # primary @ fallback)
    \<and> (\<forall>p \<in> set primary. \<exists>c \<in> set cs. hex c \<noteq> baseHex
           \<and> hueDistance (hueOf c) ((h baseHsl + 180) mod 360) \<le> 45
           \<and> p = c\<lparr>hueDiff := Some (hueDistance (hueOf c) ((h baseHsl + 180) mod 360))\<rparr>)
    \<and> (\<forall>f \<in> set fallback. \<exists>c \<in> set cs. hex c \<noteq> baseHex
           \<and> hueDistance (hueOf c) (h baseHsl) \<le> 30
           \<and> f = c\<lparr>hueDiff := Some (hueDistance (hueOf c) (h baseHsl) + 1000)\<rparr>)
    \<and> sorted (List.map_filter hueDiff (primary @ fallback))"
proof -
  let ?hue = "(h baseHsl + 180) mod 360"
  let ?dC = "\<lambda>c. hueDistance (hueOf c) ?hue"
  let ?dB = "\<lambda>c. hueDistance (hueOf c) (h baseHsl)"
  let ?P = "map (\<lambda>c. c\<lparr>hueDiff := Some (?dC c)\<rparr>) (filter (\<lambda>c. hex c \<noteq> baseHex \<and> ?dC c \<le> 45) cs)"
  have base: "pushBase cs baseHex = [b]" using assms(3) by (simp add: pushBase_def)
  from complementary_run [OF assms(1,2), of cnt] obtain fb where
    run: "findComplementaryColorsFromCollection cs baseHex cnt =
        Some (take cnt (js_sort byHueDiff (pushBase cs baseHex @ ?P @ fb)))"
    and fb: "\<forall>f \<in> set fb. \<exists>c \<in> set cs. hex c \<noteq> baseHex \<and> \<not> ?dC c \<le> 45
           \<and> ?dB c \<le> 30 \<and> f = c\<lparr>hueDiff := Some (?dB c + 1000)\<rparr>"
    by blast
  define rest where "rest = take (cnt - 1) (js_sort byHueDiff (?P @ fb))"
  have sorted_head: "js_sort byHueDiff (b # ?P @ fb) = b # js_sort byHueDiff (?P @ fb)"
    using keyed_byHueDiff assms(4) by (rule js_sort_unkeyed_head)
  have found: "findComplementaryColorsFromCollection cs baseHex cnt = Some (b # rest)"
    using run assms(5) unfolding base rest_def
    by (cases cnt) (simp_all add: sorted_head)
  have mem: "set rest \<subseteq> set ?P \<union> set fb"
    using set_take_subset [of "cnt - 1" "js_sort byHueDiff (?P @ fb)"]
    by (simp add: rest_def set_js_sort)
  have srt: "sorted (List.map_filter hueDiff rest)"
    unfolding rest_def by (intro sorted_map_filter_take sorted_js_sort keyed_byHueDiff)
  have baseHue: "0 \<le> h baseHsl" "h baseHsl \<le> 360"
    using hexToHsl_range [OF assms(1)] by simp_all
  have keyP: "\<exists>d. hueDiff p = Some d \<and> d < 1000" if "p \<in> set ?P" for p
    using that by auto
  have keyF: "\<exists>d. hueDiff f = Some d \<and> \<not> d < 1000" if "f \<in> set fb" for f
  proof -
    from fb that obtain c where c: "c \<in> set cs" "f = c\<lparr>hueDiff := Some (?dB c + 1000)\<rparr>"
      by blast
    from c(1) assms(2) have "hexToHsl (hex c) \<noteq> None" by simp
    from hueDistance_range(1) [OF hueOf_range [OF this] baseHue] c(2) show ?thesis by simp
  qed
  have keyed: "\<forall>x \<in> set rest. hueDiff x \<noteq> None"
    using mem keyP keyF by fastforce
  define primary where "primary = filter (\<lambda>x. the (hueDiff x) < 1000) rest"
  define fallback where "fallback = filter (\<lambda>x. \<not> the (hueDiff x) < 1000) rest"
  have split: "rest = primary @ fallback"
    unfolding primary_def fallback_def by (rule sorted_split_at [OF srt keyed])
  have "\<forall>p \<in> set primary. \<exists>c \<in> set cs. hex c \<noteq> baseHex \<and> ?dC c \<le> 45
           \<and> p = c\<lparr>hueDiff := Some (?dC c)\<rparr>"
  proof
    fix p assume "p \<in> set primary"
    then have p: "p \<in> set rest" "the (hueDiff p) < 1000" by (simp_all add: primary_def)
    have "p \<notin> set fb"
    proof
      assume "p \<in> set fb"
      from keyF [OF this] p(2) show False by auto
    qed
    moreover from mem p(1) have "p \<in> set ?P \<or> p \<in> set fb" by blast
    ultimately have "p \<in> set ?P" by blast
    then show "\<exists>c \<in> set cs. hex c \<noteq> baseHex \<and> ?dC c \<le> 45 \<and> p = c\<lparr>hueDiff := Some (?dC c)\<rparr>"
      by auto
  qed
  moreover have "\<forall>f \<in> set fallback. \<exists>c \<in> set cs. hex c \<noteq> baseHex \<and> ?dB c \<le> 30
           \<and> f = c\<lparr>hueDiff := Some (?dB c + 1000)\<rparr>"
  proof
    fix f assume "f \<in> set fallback"
    then have f: "f \<in> set rest" "\<not> the (hueDiff f) < 1000" by (simp_all add: fallback_def)
    have "f \<notin> set ?P"
    proof
      assume "f \<in> set ?P"
      from keyP [OF this] f(2) show False by auto
    qed
    moreover from mem f(1) have "f \<in> set ?P \<or> f \<in> set fb" by blast
    ultimately have "f \<in> set fb" by blast
    with fb show "\<exists>c \<in> set cs. hex c \<noteq> baseHex \<and> ?dB c \<le> 30
           \<and> f = c\<lparr>hueDiff := Some (?dB c + 1000)\<rparr>" by blast
  qed
  moreover have "sorted (List.map_filter hueDiff (primary @ fallback))"
    using srt by (simp only: split)
  moreover have "findComplementaryColorsFromCollection cs baseHex cnt = Some (b # primary @ fallback)"
    using found by (simp only: split)
  ultimately show ?thesis by blast
qed


lemmas search_eval =
  findAnalogousColorsFromCollection_def findComplementaryColorsFromCollection_def
  findTriadicColorsFromCollection_def findMonochromaticColorsFromCollection_def
  findSplitComplementaryFromCollection_def
  analogousStep_def complementaryStep_def similarStep_def triadicStep_def
  monochromaticStep_def splitStep_def pushBase_def
  js_sort_def byHueDiff_def byLightnessDiff_def negative_def Let_def

text \<open>
  Claim C3. The search does not place the base first when the base record carries a
  \<open>hueDiff\<close> of its own, as a record that an earlier search returned does. Line 159 pushes the
  record as it is, under the comment "Add base color first", and the sort of line 199 then
  ranks it by the score it came with: the base \<open>#FF0000\<close> is in the collection with
  \<open>hueDiff\<close> 10 and \<open>count\<close> is 4, and the result begins with the complementary colour.
\<close>

theorem complementary_base_not_first:
  "findComplementaryColorsFromCollection
     [\<lparr>hex = ''#FF0000'', name = ''red'', hueDiff = Some 10, lightnessDiff = None\<rparr>,
      \<lparr>hex = ''#00FFFF'', name = ''cyan'', hueDiff = None, lightnessDiff = None\<rparr>]
     ''#FF0000'' 4
   = Some [\<lparr>hex = ''#00FFFF'', name = ''cyan'', hueDiff = Some 0, lightnessDiff = None\<rparr>,
           \<lparr>hex = ''#FF0000'', name = ''red'', hueDiff = Some 10, lightnessDiff = None\<rparr>]"
  by (simp add: search_eval hsl_FF0000 hsl_00FFFF)

theorem complementary_base_first_witness:
  "\<exists>primary fallback.
      findComplementaryColorsFromCollection
        [\<lparr>hex = ''#FF2B00'', name = ''orange red'', hueDiff = None, lightnessDiff = None\<rparr>,
         \<lparr>hex = ''#00AAFF'', name = ''azure'', hueDiff = None, lightnessDiff = None\<rparr>,
         \<lparr>hex = ''#FF0000'', name = ''red'', hueDiff = None, lightnessDiff = None\<rparr>,
         \<lparr>hex = ''#00FFFF'', name = ''cyan'', hueDiff = None, lightnessDiff = None\<rparr>]
        ''#FF0000'' 4
      = Some (\<lparr>hex = ''#FF0000'', name = ''red'', hueDiff = None, lightnessDiff = None\<rparr>
              # primary @ fallback)
    \<and> primary = [\<lparr>hex = ''#00FFFF'', name = ''cyan'', hueDiff = Some 0, lightnessDiff = None\<rparr>,
                 \<lparr>hex = ''#00AAFF'', name = ''azure'', hueDiff = Some 20, lightnessDiff = None\<rparr>]
    \<and> fallback = [\<lparr>hex = ''#FF2B00'', name = ''orange red'', hueDiff = Some 1010, lightnessDiff = None\<rparr>]"
proof -
  let ?cs = "[\<lparr>hex = ''#FF2B00'', name = ''orange red'', hueDiff = None, lightnessDiff = None\<rparr>,
         \<lparr>hex = ''#00AAFF'', name = ''azure'', hueDiff = None, lightnessDiff = None\<rparr>,
         \<lparr>hex = ''#FF0000'', name = ''red'', hueDiff = None, lightnessDiff = None\<rparr>,
         \<lparr>hex = ''#00FFFF'', name = ''cyan'', hueDiff = None, lightnessDiff = None\<rparr>]"
  let ?b = "\<lparr>hex = ''#FF0000'', name = ''red'', hueDiff = None, lightnessDiff = None\<rparr>"
  have valid: "\<forall>c \<in> set ?cs. hexToHsl (hex c) \<noteq> None"
    by (simp add: hsl_FF0000 hsl_FF2B00 hsl_00AAFF hsl_00FFFF)
  have found: "find (\<lambda>c. hex c = ''#FF0000'') ?cs = Some ?b" by simp
  have eval: "findComplementaryColorsFromCollection ?cs ''#FF0000'' 4 =
    Some [?b, \<lparr>hex = ''#00FFFF'', name = ''cyan'', hueDiff = Some 0, lightnessDiff = None\<rparr>,
          \<lparr>hex = ''#00AAFF'', name = ''azure'', hueDiff = Some 20, lightnessDiff = None\<rparr>,
          \<lparr>hex = ''#FF2B00'', name = ''orange red'', hueDiff = Some 1010, lightnessDiff = None\<rparr>]"
    by (simp add: search_eval hsl_FF0000 hsl_FF2B00 hsl_00AAFF hsl_00FFFF)
  from complementary_base_first [OF hsl_FF0000 valid found, of 4]
  obtain primary fallback where
    run: "findComplementaryColorsFromCollection ?cs ''#FF0000'' 4 = Some (?b # primary @ fallback)"
    and p: "\<forall>p \<in> set primary. \<exists>c \<in> set ?cs. hex c \<noteq> ''#FF0000''
           \<and> hueDistance (hueOf c) ((h \<lparr>h = 0, s = 100, l = 50\<rparr> + 180) mod 360) \<le> 45
           \<and> p = c\<lparr>hueDiff := Some (hueDistance (hueOf c) ((h \<lparr>h = 0, s = 100, l = 50\<rparr> + 180) mod 360))\<rparr>"
    and f: "\<forall>f \<in> set fallback. \<exists>c \<in> set ?cs. hex c \<noteq> ''#FF0000''
           \<and> hueDistance (hueOf c) (h \<lparr>h = 0, s = 100, l = 50\<rparr>) \<le> 30
           \<and> f = c\<lparr>hueDiff := Some (hueDistance (hueOf c) (h \<lparr>h = 0, s = 100, l = 50\<rparr>) + 1000)\<rparr>"
    by auto
  from run eval have list: "primary @ fallback =
       [\<lparr>hex = ''#00FFFF'', name = ''cyan'', hueDiff = Some 0, lightnessDiff = None\<rparr>,
        \<lparr>hex = ''#00AAFF'', name = ''azure'', hueDiff = Some 20, lightnessDiff = None\<rparr>,
        \<lparr>hex = ''#FF2B00'', name = ''orange red'', hueDiff = Some 1010, lightnessDiff = None\<rparr>]"
    by simp
  have hues: "hueOf \<lparr>hex = ''#FF2B00'', name = ''orange red'', hueDiff = None, lightnessDiff = None\<rparr> = 10"
    "hueOf \<lparr>hex = ''#00AAFF'', name = ''azure'', hueDiff = None, lightnessDiff = None\<rparr> = 200"
    "hueOf \<lparr>hex = ''#00FFFF'', name = ''cyan'', hueDiff = None, lightnessDiff = None\<rparr> = 180"
    by (simp_all add: hueOf_def hsl_FF2B00 hsl_00AAFF hsl_00FFFF)
  have pk: "\<forall>p \<in> set primary. hueDiff p \<noteq> Some 1010"
    using p by (auto simp: hues hueDistance_def)
  have fk: "\<forall>f \<in> set fallback. hueDiff f \<noteq> Some 0 \<and> hueDiff f \<noteq> Some 20"
    using f by (auto simp: hues hueDistance_def)
  from list pk fk have "primary = [\<lparr>hex = ''#00FFFF'', name = ''cyan'', hueDiff = Some 0, lightnessDiff = None\<rparr>,
                 \<lparr>hex = ''#00AAFF'', name = ''azure'', hueDiff = Some 20, lightnessDiff = None\<rparr>]
    \<and> fallback = [\<lparr>hex = ''#FF2B00'', name = ''orange red'', hueDiff = Some 1010, lightnessDiff = None\<rparr>]"
    by (auto simp: append_eq_Cons_conv Cons_eq_append_conv)
  with run show ?thesis by blast
qed


text \<open>
  Claim C10. The record that the search inserts for the base is the input record with
  whatever it carries, so it is without a \<open>hueDiff\<close> only when the input is. The base
  \<open>#FF0000\<close> is in the collection with \<open>hueDiff\<close> 30: the returned base entry still carries
  30, the comparator on the base and another entry is a number and not \<open>NaN\<close>, and the base
  comes last.
\<close>

theorem complementary_base_keeps_score:
  "findComplementaryColorsFromCollection
     [\<lparr>hex = ''#FF0000'', name = ''red'', hueDiff = Some 30, lightnessDiff = None\<rparr>,
      \<lparr>hex = ''#00AAFF'', name = ''azure'', hueDiff = None, lightnessDiff = None\<rparr>,
      \<lparr>hex = ''#00FFFF'', name = ''cyan'', hueDiff = None, lightnessDiff = None\<rparr>]
     ''#FF0000'' 4
   = Some [\<lparr>hex = ''#00FFFF'', name = ''cyan'', hueDiff = Some 0, lightnessDiff = None\<rparr>,
           \<lparr>hex = ''#00AAFF'', name = ''azure'', hueDiff = Some 20, lightnessDiff = None\<rparr>,
           \<lparr>hex = ''#FF0000'', name = ''red'', hueDiff = Some 30, lightnessDiff = None\<rparr>]
 \<and> byHueDiff \<lparr>hex = ''#00AAFF'', name = ''azure'', hueDiff = Some 20, lightnessDiff = None\<rparr>
       \<lparr>hex = ''#FF0000'', name = ''red'', hueDiff = Some 30, lightnessDiff = None\<rparr>
    = Some (- 10)"
  by (simp add: search_eval hsl_FF0000 hsl_00AAFF hsl_00FFFF)

text \<open>
  Where the inserted record is unscored. When every string converts and the base colour is
  in the collection, the array that the complementary search sorts is the input record of
  the base itself, unchanged, followed by copies of collection colours whose \<open>hueDiff\<close> is a
  number. When the base record carries no \<open>hueDiff\<close>, the comparator is \<open>NaN\<close> on every pair
  with the base in it; the sort reads that as "not before", and so leaves the base first.
\<close>

theorem complementary_base_unscored:
  assumes "hexToHsl baseHex = Some baseHsl"
    and "\<forall>c \<in> set cs. hexToHsl (hex c) \<noteq> None"
    and "find (\<lambda>c. hex c = baseHex) cs = Some b"
  shows "\<exists>scored.
      findComplementaryColorsFromCollection cs baseHex cnt
        = Some (take cnt (js_sort byHueDiff (b # scored)))
    \<and> b \<in> set cs
    \<and> (\<forall>x \<in> set scored. \<exists>c \<in> set cs. \<exists>d. x = c\<lparr>hueDiff := Some d\<rparr>)
    \<and> (hueDiff b = None \<longrightarrow>
          (\<forall>x \<in> set scored. byHueDiff b x = None \<and> byHueDiff x b = None
                \<and> \<not> negative (byHueDiff x b))
          \<and> js_sort byHueDiff (b # scored) = b # js_sort byHueDiff scored)"
proof -
  let ?hue = "(h baseHsl + 180) mod 360"
  let ?dC = "\<lambda>c. hueDistance (hueOf c) ?hue"
  let ?dB = "\<lambda>c. hueDistance (hueOf c) (h baseHsl)"
  let ?P = "map (\<lambda>c. c\<lparr>hueDiff := Some (?dC c)\<rparr>) (filter (\<lambda>c. hex c \<noteq> baseHex \<and> ?dC c \<le> 45) cs)"
  have base: "pushBase cs baseHex = [b]" using assms(3) by (simp add: pushBase_def)
  have b: "b \<in> set cs" using assms(3) by (auto simp: find_Some_iff)
  from complementary_run [OF assms(1,2), of cnt] obtain fb where
    run: "findComplementaryColorsFromCollection cs baseHex cnt =
        Some (take cnt (js_sort byHueDiff (pushBase cs baseHex @ ?P @ fb)))"
    and fb: "\<forall>f \<in> set fb. \<exists>c \<in> set cs. hex c \<noteq> baseHex \<and> \<not> ?dC c \<le> 45
           \<and> ?dB c \<le> 30 \<and> f = c\<lparr>hueDiff := Some (?dB c + 1000)\<rparr>"
    by blast
  have 1: "findComplementaryColorsFromCollection cs baseHex cnt
        = Some (take cnt (js_sort byHueDiff (b # ?P @ fb)))"
    using run by (simp add: base)
  have 2: "\<forall>x \<in> set (?P @ fb). \<exists>c \<in> set cs. \<exists>d. x = c\<lparr>hueDiff := Some d\<rparr>"
  proof
    fix x assume "x \<in> set (?P @ fb)"
    then consider "x \<in> set ?P" | "x \<in> set fb" by auto
    then show "\<exists>c \<in> set cs. \<exists>d. x = c\<lparr>hueDiff := Some d\<rparr>"
    proof cases
      case 1
      then show ?thesis by auto
    next
      case 2
      with fb show ?thesis by blast
    qed
  qed
  have 3: "(\<forall>x \<in> set (?P @ fb). byHueDiff b x = None \<and> byHueDiff x b = None
                \<and> \<not> negative (byHueDiff x b))
          \<and> js_sort byHueDiff (b # ?P @ fb) = b # js_sort byHueDiff (?P @ fb)"
    if "hueDiff b = None"
    using that js_sort_unkeyed_head [OF keyed_byHueDiff that]
    by (simp add: byHueDiff_def negative_def split: option.splits)
  show ?thesis
  proof (intro exI conjI)
    show "findComplementaryColorsFromCollection cs baseHex cnt
        = Some (take cnt (js_sort byHueDiff (b # ?P @ fb)))" by (rule 1)
    show "b \<in> set cs" by (rule b)
    show "\<forall>x \<in> set (?P @ fb). \<exists>c \<in> set cs. \<exists>d. x = c\<lparr>hueDiff := Some d\<rparr>" by (rule 2)
    show "hueDiff b = None \<longrightarrow>
          (\<forall>x \<in> set (?P @ fb). byHueDiff b x = None \<and> byHueDiff x b = None
                \<and> \<not> negative (byHueDiff x b))
          \<and> js_sort byHueDiff (b # ?P @ fb) = b # js_sort byHueDiff (?P @ fb)"
      by (rule impI) (rule 3)
  qed
qed

theorem complementary_base_unscored_witness:
  "\<exists>scored.
      findComplementaryColorsFromCollection
        [\<lparr>hex = ''#00FFFF'', name = ''cyan'', hueDiff = None, lightnessDiff = None\<rparr>,
         \<lparr>hex = ''#FF0000'', name = ''red'', hueDiff = None, lightnessDiff = None\<rparr>]
        ''#FF0000'' 4
      = Some (take 4 (js_sort byHueDiff
          (\<lparr>hex = ''#FF0000'', name = ''red'', hueDiff = None, lightnessDiff = None\<rparr> # scored)))
    \<and> js_sort byHueDiff
          (\<lparr>hex = ''#FF0000'', name = ''red'', hueDiff = None, lightnessDiff = None\<rparr> # scored)
        = \<lparr>hex = ''#FF0000'', name = ''red'', hueDiff = None, lightnessDiff = None\<rparr>
          # js_sort byHueDiff scored
    \<and> list_all (\<lambda>x. byHueDiff x
          \<lparr>hex = ''#FF0000'', name = ''red'', hueDiff = None, lightnessDiff = None\<rparr> = None) scored"
proof -
  let ?cs = "[\<lparr>hex = ''#00FFFF'', name = ''cyan'', hueDiff = None, lightnessDiff = None\<rparr>,
         \<lparr>hex = ''#FF0000'', name = ''red'', hueDiff = None, lightnessDiff = None\<rparr>]"
  let ?b = "\<lparr>hex = ''#FF0000'', name = ''red'', hueDiff = None, lightnessDiff = None\<rparr>"
  have valid: "\<forall>c \<in> set ?cs. hexToHsl (hex c) \<noteq> None"
    by (simp add: hsl_FF0000 hsl_00FFFF)
  have found: "find (\<lambda>c. hex c = ''#FF0000'') ?cs = Some ?b" by simp
  from complementary_base_unscored [OF hsl_FF0000 valid found, of 4]
  show ?thesis by (auto simp: list_all_iff)
qed


section \<open>The five searches\<close>

lemma pushBase_baseRecord: "pushBase cs baseHex = baseRecord cs baseHex"
  by (induction cs) (simp_all add: pushBase_def baseRecord_def)

text \<open>The second loop of the complementary search takes the unselected fallback colours.\<close>

lemma forEach_fallback:
  assumes "\<forall>c \<in> set cs. hexToHsl (hex c) \<noteq> None"
  shows "forEach (similarStep baseHex baseHsl) cs st =
     Some (st @ map (\<lambda>c. c\<lparr>hueDiff := Some (hueDistance (hueOf c) (h baseHsl) + 1000)\<rparr>)
       (unselected (map hex st)
          (filter (\<lambda>c. hex c \<noteq> baseHex \<and> hueDistance (hueOf c) (h baseHsl) \<le> 30) cs)))"
  using assms
proof (induction cs arbitrary: st)
  case Nil
  then show ?case by simp
next
  case (Cons c cs)
  from Cons.prems obtain v where v: "hexToHsl (hex c) = Some v" by auto
  let ?d = "\<lambda>c. hueDistance (hueOf c) (h baseHsl)"
  let ?push = "hex c \<noteq> baseHex \<and> hex c \<notin> hex ` set st \<and> ?d c \<le> 30"
  let ?new = "if ?push then [c\<lparr>hueDiff := Some (?d c + 1000)\<rparr>] else []"
  have step: "similarStep baseHex baseHsl c st = Some (st @ ?new)"
  proof (cases "hex c \<in> hex ` set st")
    case True
    then have "find (\<lambda>x. hex x = hex c) st \<noteq> None" by (simp only: find_hex_None) simp
    with True show ?thesis by (simp add: similarStep_def)
  next
    case False
    then have "find (\<lambda>x. hex x = hex c) st = None" by (simp only: find_hex_None) simp
    with False v show ?thesis
      by (simp add: similarStep_def hueDistance_alt hueOf_def Let_def)
  qed
  have ih: "forEach (similarStep baseHex baseHsl) cs (st @ ?new) =
     Some ((st @ ?new) @ map (\<lambda>c. c\<lparr>hueDiff := Some (?d c + 1000)\<rparr>)
       (unselected (map hex (st @ ?new))
          (filter (\<lambda>c. hex c \<noteq> baseHex \<and> ?d c \<le> 30) cs)))"
    using Cons.prems by (intro Cons.IH) simp
  show ?case
  proof (cases ?push)
    case True
    then have n: "?new = [c\<lparr>hueDiff := Some (?d c + 1000)\<rparr>]" by (rule if_P)
    from True show ?thesis using step ih unfolding n by simp
  next
    case False
    then have n: "?new = []" by (rule if_not_P)
    from False show ?thesis using step ih unfolding n by auto
  qed
qed

lemma complementary_matches:
  assumes "hexToHsl baseHex = Some baseHsl"
    and "\<forall>c \<in> set cs. hexToHsl (hex c) \<noteq> None"
  shows "findComplementaryColorsFromCollection cs baseHex cnt =
     Some (take cnt (js_sort byHueDiff (baseRecord cs baseHex
       @ primaryMatches baseHex baseHsl cs @ fallbackMatches baseHex baseHsl cs)))"
proof -
  let ?hue = "(h baseHsl + 180) mod 360"
  let ?st = "baseRecord cs baseHex @ primaryMatches baseHex baseHsl cs"
  have first: "forEach (complementaryStep baseHex ?hue) cs (pushBase cs baseHex) = Some ?st"
    unfolding primaryMatches_def pushBase_baseRecord [symmetric]
    by (rule forEach_complementary [OF assms(2)])
  have second: "forEach (similarStep baseHex baseHsl) cs ?st
      = Some (?st @ fallbackMatches baseHex baseHsl cs)"
    unfolding fallbackMatches_def by (rule forEach_fallback [OF assms(2)])
  show ?thesis
    using assms(1) first second
    by (simp add: findComplementaryColorsFromCollection_def Let_def)
qed

text \<open>
  Claim C4 as stated fails where two records have the same \<open>hex\<close> string. Two records
  \<open>#FF2B00\<close> are both 10 degrees from the base hue of \<open>#FF0000\<close>, so both qualify as
  fallback matches and \<open>count\<close> is 4, but the complementary search returns the first only:
  its second loop skips a colour whose \<open>hex\<close> is already selected. Likewise the triadic
  search, given two records \<open>#FF0000\<close> and that base, returns the first and skips the second,
  which is 0 degrees from the base hue.
\<close>

theorem same_hex_not_all_returned:
  "findComplementaryColorsFromCollection
     [\<lparr>hex = ''#FF2B00'', name = ''orange red'', hueDiff = None, lightnessDiff = None\<rparr>,
      \<lparr>hex = ''#FF2B00'', name = ''vermilion'', hueDiff = None, lightnessDiff = None\<rparr>]
     ''#FF0000'' 4
   = Some [\<lparr>hex = ''#FF2B00'', name = ''orange red'', hueDiff = Some 1010, lightnessDiff = None\<rparr>]
 \<and> hexToHsl ''#FF0000'' = Some \<lparr>h = 0, s = 100, l = 50\<rparr>
 \<and> hueDistance
      (hueOf \<lparr>hex = ''#FF2B00'', name = ''vermilion'', hueDiff = None, lightnessDiff = None\<rparr>) 0
    = 10
 \<and> findTriadicColorsFromCollection
     [\<lparr>hex = ''#FF0000'', name = ''red'', hueDiff = None, lightnessDiff = None\<rparr>,
      \<lparr>hex = ''#FF0000'', name = ''scarlet'', hueDiff = None, lightnessDiff = None\<rparr>]
     ''#FF0000'' 6
   = Some [\<lparr>hex = ''#FF0000'', name = ''red'', hueDiff = None, lightnessDiff = None\<rparr>]
 \<and> hueDistance
      (hueOf \<lparr>hex = ''#FF0000'', name = ''scarlet'', hueDiff = None, lightnessDiff = None\<rparr>) 0
    = 0"
  by (simp add: search_eval hsl_FF0000 hsl_FF2B00 hueOf_def hueDistance_def)

text \<open>
  Claim C4, amended. For each of the five searches, when every string converts: the search
  returns a list of at most \<open>count\<close> entries, the scores in it are in ascending order, every
  entry is one of the qualifying colours, and when the qualifying colours are no more than
  \<open>count\<close> the result holds each of them, as many times as it qualifies. The qualifying
  colours are: for the analogous and the monochromatic search every colour in the window,
  annotated; for the triadic and the split complementary search the first record with the
  base \<open>hex\<close>, as it is, and every colour in the window with another \<open>hex\<close>, annotated; for the
  complementary search the first record with the base \<open>hex\<close>, the primary matches with another
  \<open>hex\<close>, and the fallback matches, one for each \<open>hex\<close> string that is not selected already.
\<close>

theorem searches_sorted_and_truncated:
  assumes "hexToHsl baseHex = Some baseHsl"
    and "\<forall>c \<in> set cs. hexToHsl (hex c) \<noteq> None"
  shows
   "(\<exists>found. findAnalogousColorsFromCollection cs baseHex cnt = Some found
       \<and> length found \<le> cnt \<and> sorted (List.map_filter hueDiff found)
       \<and> set found \<subseteq> set (analogousMatches baseHsl cs)
       \<and> (length (analogousMatches baseHsl cs) \<le> cnt
            \<longrightarrow> mset found = mset (analogousMatches baseHsl cs)))
  \<and> (\<exists>found. findComplementaryColorsFromCollection cs baseHex cnt = Some found
       \<and> length found \<le> cnt \<and> sorted (List.map_filter hueDiff found)
       \<and> set found \<subseteq> set (baseRecord cs baseHex @ primaryMatches baseHex baseHsl cs
                               @ fallbackMatches baseHex baseHsl cs)
       \<and> (length (baseRecord cs baseHex @ primaryMatches baseHex baseHsl cs
                    @ fallbackMatches baseHex baseHsl cs) \<le> cnt
            \<longrightarrow> mset found
                = mset (baseRecord cs baseHex @ primaryMatches baseHex baseHsl cs
                          @ fallbackMatches baseHex baseHsl cs)))
  \<and> (\<exists>found. findTriadicColorsFromCollection cs baseHex cnt = Some found
       \<and> length found \<le> cnt \<and> sorted (List.map_filter hueDiff found)
       \<and> set found \<subseteq> set (baseRecord cs baseHex @ triadicMatches baseHex baseHsl cs)
       \<and> (length (baseRecord cs baseHex @ triadicMatches baseHex baseHsl cs) \<le> cnt
            \<longrightarrow> mset found = mset (baseRecord cs baseHex @ triadicMatches baseHex baseHsl cs)))
  \<and> (\<exists>found. findMonochromaticColorsFromCollection cs baseHex cnt = Some found
       \<and> length found \<le> cnt \<and> sorted (List.map_filter lightnessDiff found)
       \<and> set found \<subseteq> set (monochromaticMatches baseHsl cs)
       \<and> (length (monochromaticMatches baseHsl cs) \<le> cnt
            \<longrightarrow> mset found = mset (monochromaticMatches baseHsl cs)))
  \<and> (\<exists>found. findSplitComplementaryFromCollection cs baseHex cnt = Some found
       \<and> length found \<le> cnt \<and> sorted (List.map_filter hueDiff found)
       \<and> set found \<subseteq> set (baseRecord cs baseHex @ splitMatches baseHex baseHsl cs)
       \<and> (length (baseRecord cs baseHex @ splitMatches baseHex baseHsl cs) \<le> cnt
            \<longrightarrow> mset found = mset (baseRecord cs baseHex @ splitMatches baseHex baseHsl cs)))"
proof (intro conjI)
  note hue = search_result [OF keyed_byHueDiff]
  note light = search_result [OF keyed_byLightnessDiff]
  have "findAnalogousColorsFromCollection cs baseHex cnt
        = Some (take cnt (js_sort byHueDiff (analogousMatches baseHsl cs)))"
    using assms(1) forEach_analogous [OF assms(2), of baseHsl "[]"]
    by (simp add: findAnalogousColorsFromCollection_def analogousMatches_def)
  with hue [where n = cnt and cands = "analogousMatches baseHsl cs"]
  show "\<exists>found. findAnalogousColorsFromCollection cs baseHex cnt = Some found
       \<and> length found \<le> cnt \<and> sorted (List.map_filter hueDiff found)
       \<and> set found \<subseteq> set (analogousMatches baseHsl cs)
       \<and> (length (analogousMatches baseHsl cs) \<le> cnt
            \<longrightarrow> mset found = mset (analogousMatches baseHsl cs))"
    by blast
  let ?cands = "baseRecord cs baseHex @ primaryMatches baseHex baseHsl cs
                  @ fallbackMatches baseHex baseHsl cs"
  from complementary_matches [OF assms, of cnt] hue [where n = cnt and cands = ?cands]
  show "\<exists>found. findComplementaryColorsFromCollection cs baseHex cnt = Some found
       \<and> length found \<le> cnt \<and> sorted (List.map_filter hueDiff found)
       \<and> set found \<subseteq> set ?cands
       \<and> (length ?cands \<le> cnt \<longrightarrow> mset found = mset ?cands)"
    by blast
  have "findTriadicColorsFromCollection cs baseHex cnt
        = Some (take cnt (js_sort byHueDiff (baseRecord cs baseHex @ triadicMatches baseHex baseHsl cs)))"
    using assms(1) forEach_triadic [OF assms(2), of baseHex baseHsl _ _ "pushBase cs baseHex"]
    by (simp add: findTriadicColorsFromCollection_def triadicMatches_def nearestOfThree_def Let_def
        pushBase_baseRecord)
  with hue [where n = cnt and cands = "baseRecord cs baseHex @ triadicMatches baseHex baseHsl cs"]
  show "\<exists>found. findTriadicColorsFromCollection cs baseHex cnt = Some found
       \<and> length found \<le> cnt \<and> sorted (List.map_filter hueDiff found)
       \<and> set found \<subseteq> set (baseRecord cs baseHex @ triadicMatches baseHex baseHsl cs)
       \<and> (length (baseRecord cs baseHex @ triadicMatches baseHex baseHsl cs) \<le> cnt
            \<longrightarrow> mset found = mset (baseRecord cs baseHex @ triadicMatches baseHex baseHsl cs))"
    by blast
  have "findMonochromaticColorsFromCollection cs baseHex cnt
        = Some (take cnt (js_sort byLightnessDiff (monochromaticMatches baseHsl cs)))"
    using assms(1) forEach_monochromatic [OF assms(2), of baseHsl "[]"]
    by (simp add: findMonochromaticColorsFromCollection_def monochromaticMatches_def)
  with light [where n = cnt and cands = "monochromaticMatches baseHsl cs"]
  show "\<exists>found. findMonochromaticColorsFromCollection cs baseHex cnt = Some found
       \<and> length found \<le> cnt \<and> sorted (List.map_filter lightnessDiff found)
       \<and> set found \<subseteq> set (monochromaticMatches baseHsl cs)
       \<and> (length (monochromaticMatches baseHsl cs) \<le> cnt
            \<longrightarrow> mset found = mset (monochromaticMatches baseHsl cs))"
    by blast
  have "findSplitComplementaryFromCollection cs baseHex cnt
        = Some (take cnt (js_sort byHueDiff (baseRecord cs baseHex @ splitMatches baseHex baseHsl cs)))"
    using assms(1) forEach_split [OF assms(2), of baseHex baseHsl _ _ "pushBase cs baseHex"]
    by (simp add: findSplitComplementaryFromCollection_def splitMatches_def nearestOfThree_def Let_def
        pushBase_baseRecord)
  with hue [where n = cnt and cands = "baseRecord cs baseHex @ splitMatches baseHex baseHsl cs"]
  show "\<exists>found. findSplitComplementaryFromCollection cs baseHex cnt = Some found
       \<and> length found \<le> cnt \<and> sorted (List.map_filter hueDiff found)
       \<and> set found \<subseteq> set (baseRecord cs baseHex @ splitMatches baseHex baseHsl cs)
       \<and> (length (baseRecord cs baseHex @ splitMatches baseHex baseHsl cs) \<le> cnt
            \<longrightarrow> mset found = mset (baseRecord cs baseHex @ splitMatches baseHex baseHsl cs))"
    by blast
qed

theorem searches_sorted_and_truncated_witness:
  "(\<exists>found. findAnalogousColorsFromCollection
        [\<lparr>hex = ''#FF0000'', name = ''red'', hueDiff = None, lightnessDiff = None\<rparr>,
         \<lparr>hex = ''#FF2B00'', name = ''orange red'', hueDiff = None, lightnessDiff = None\<rparr>,
         \<lparr>hex = ''#00FFFF'', name = ''cyan'', hueDiff = None, lightnessDiff = None\<rparr>]
        ''#FF0000'' 2 = Some found
      \<and> length found \<le> 2 \<and> sorted (List.map_filter hueDiff found))
 \<and> (\<exists>found. findComplementaryColorsFromCollection
        [\<lparr>hex = ''#FF0000'', name = ''red'', hueDiff = None, lightnessDiff = None\<rparr>,
         \<lparr>hex = ''#FF2B00'', name = ''orange red'', hueDiff = None, lightnessDiff = None\<rparr>,
         \<lparr>hex = ''#00FFFF'', name = ''cyan'', hueDiff = None, lightnessDiff = None\<rparr>]
        ''#FF0000'' 2 = Some found
      \<and> length found \<le> 2 \<and> sorted (List.map_filter hueDiff found))
 \<and> (\<exists>found. findTriadicColorsFromCollection
        [\<lparr>hex = ''#FF0000'', name = ''red'', hueDiff = None, lightnessDiff = None\<rparr>,
         \<lparr>hex = ''#FF2B00'', name = ''orange red'', hueDiff = None, lightnessDiff = None\<rparr>,
         \<lparr>hex = ''#00FFFF'', name = ''cyan'', hueDiff = None, lightnessDiff = None\<rparr>]
        ''#FF0000'' 2 = Some found
      \<and> length found \<le> 2 \<and> sorted (List.map_filter hueDiff found))
 \<and> (\<exists>found. findMonochromaticColorsFromCollection
        [\<lparr>hex = ''#FF0000'', name = ''red'', hueDiff = None, lightnessDiff = None\<rparr>,
         \<lparr>hex = ''#FF2B00'', name = ''orange red'', hueDiff = None, lightnessDiff = None\<rparr>,
         \<lparr>hex = ''#00FFFF'', name = ''cyan'', hueDiff = None, lightnessDiff = None\<rparr>]
        ''#FF0000'' 2 = Some found
      \<and> length found \<le> 2 \<and> sorted (List.map_filter lightnessDiff found))
 \<and> (\<exists>found. findSplitComplementaryFromCollection
        [\<lparr>hex = ''#FF0000'', name = ''red'', hueDiff = None, lightnessDiff = None\<rparr>,
         \<lparr>hex = ''#FF2B00'', name = ''orange red'', hueDiff = None, lightnessDiff = None\<rparr>,
         \<lparr>hex = ''#00FFFF'', name = ''cyan'', hueDiff = None, lightnessDiff = None\<rparr>]
        ''#FF0000'' 2 = Some found
      \<and> length found \<le> 2 \<and> sorted (List.map_filter hueDiff found))"
proof -
  let ?cs = "[\<lparr>hex = ''#FF0000'', name = ''red'', hueDiff = None, lightnessDiff = None\<rparr>,
         \<lparr>hex = ''#FF2B00'', name = ''orange red'', hueDiff = None, lightnessDiff = None\<rparr>,
         \<lparr>hex = ''#00FFFF'', name = ''cyan'', hueDiff = None, lightnessDiff = None\<rparr>]"
  have valid: "\<forall>c \<in> set ?cs. hexToHsl (hex c) \<noteq> None"
    by (simp add: hsl_FF0000 hsl_FF2B00 hsl_00FFFF)
  from searches_sorted_and_truncated [OF hsl_FF0000 valid, of 2]
  show ?thesis by (elim conjE exE) (intro conjI exI; assumption)
qed


section \<open>The range of the hue\<close>

text \<open>
  Claim C2 at \<open>#FF0001\<close>: the hue that \<open>hexToHsl\<close> returns is 360, which is not below 360.
  (The saturation and the lightness are within 0 and 100 for every string that converts,
  and the hue within 0 and 360: \<open>hexToHsl_range\<close>.)
\<close>

theorem hue_360_returned:
  "hexToHsl ''#FF0001'' = Some \<lparr>h = 360, s = 100, l = 50\<rparr>"
  by (rule hsl_FF0001)


section \<open>A hue of 360\<close>

text \<open>
  Claim C9. \<open>hexToHsl\<close> returns the hue 360 for \<open>#FF0102\<close>, and for every saturation
  and lightness between 0 and 100 \<open>hslToHex\<close> at the hue 360 enters none of its six
  sectors: the three channels are the one value \<open>round ((l / 100 - c / 2) * 255)\<close> with
  \<open>c = (1 - |2 * l / 100 - 1|) * s / 100\<close>, computed as the source computes it.
\<close>

theorem hue_360_is_achromatic:
  "hexToHsl ''#FF0102'' = Some \<lparr>h = 360, s = 100, l = 50\<rparr> \<and>
   (\<forall>s1 l1. 0 \<le> s1 \<and> s1 \<le> 100 \<and> 0 \<le> l1 \<and> l1 \<le> 100 \<longrightarrow>
      (let ll = fdiv (of_int l1) 100; ss = fdiv (of_int s1) 100;
           c = fmul (fsub 1 \<bar>fsub (fmul 2 ll) 1\<bar>) ss;
           v = Math_round (fmul (fsub ll (fdiv c 2)) 255)
       in hslToRgb 360 s1 l1 = (v, v, v)
          \<and> hslToHex 360 s1 l1 = CHR ''#'' # concat (replicate 3 (padStart2 (toString16 v)))))"
proof -
  have "hexToHsl ''#FF0102'' = Some \<lparr>h = 360, s = 100, l = 50\<rparr>"
    by (rule hsl_FF0102)
  moreover have "hslToHex 360 s1 l1 =
      (let ll = fdiv (of_int l1) 100; ss = fdiv (of_int s1) 100;
           c = fmul (fsub 1 \<bar>fsub (fmul 2 ll) 1\<bar>) ss;
           v = Math_round (fmul (fsub ll (fdiv c 2)) 255)
       in CHR ''#'' # concat (replicate 3 (padStart2 (toString16 v))))" for s1 l1
    by (simp add: hslToHex_def hslToRgb_360 rgbToHex_def Let_def numeral_3_eq_3)
  ultimately show ?thesis
    by (simp add: hslToRgb_360 Let_def)
qed

theorem hue_360_is_achromatic_witness:
  "hslToRgb 360 100 50 = (0, 0, 0) \<and> hslToHex 360 100 50 = ''#000000''"
proof -
  have v: "Math_round (fmul (fsub (fdiv (of_int 50) 100)
             (fdiv (fmul (fsub 1 \<bar>fsub (fmul 2 (fdiv (of_int 50) 100)) 1\<bar>) (fdiv (of_int 100) 100)) 2)) 255) = 0"
    by (simp add: number_eval)
  have p: "padStart2 (toString16 0) = ''00''"
    by (simp add: padStart2_def toString16_def natToHex.simps hexChar_def)
  from hue_360_is_achromatic have
    "(0::int) \<le> 100 \<and> (100::int) \<le> 100 \<and> (0::int) \<le> 50 \<and> (50::int) \<le> 100 \<longrightarrow>
      (let ll = fdiv (of_int 50) 100; ss = fdiv (of_int 100) 100;
           c = fmul (fsub 1 \<bar>fsub (fmul 2 ll) 1\<bar>) ss;
           v = Math_round (fmul (fsub ll (fdiv c 2)) 255)
       in hslToRgb 360 100 50 = (v, v, v)
          \<and> hslToHex 360 100 50 = CHR ''#'' # concat (replicate 3 (padStart2 (toString16 v))))"
    by blast
  then show ?thesis
    unfolding Let_def v p by (simp add: numeral_3_eq_3)
qed


section \<open>Rounding errors\<close>

lemma fl_near:
  assumes "\<bar>x - y\<bar> \<le> e" and "\<bar>x\<bar> \<le> B"
  shows "\<bar>fl x - y\<bar> \<le> e + B / 2 ^ 53"
proof -
  have "\<bar>fl x - x\<bar> \<le> \<bar>x\<bar> / 2 ^ 53" by (rule fl_error)
  moreover have "\<bar>x\<bar> / 2 ^ 53 \<le> B / 2 ^ 53" using assms(2) by (simp add: divide_right_mono)
  ultimately show ?thesis using assms(1) by linarith
qed

lemma fl_unit_near:
  assumes "0 \<le> x" and "x \<le> 1"
  shows "0 \<le> fl x" and "fl x \<le> 1" and "\<bar>fl x - x\<bar> \<le> 1 / 2 ^ 53"
proof -
  show "0 \<le> fl x" "fl x \<le> 1" using fl_unit [OF assms] by simp_all
  show "\<bar>fl x - x\<bar> \<le> 1 / 2 ^ 53" using fl_near [of x x 0 1] assms by simp
qed

lemma mul_near:
  fixes a b :: rat
  assumes "\<bar>a - a'\<bar> \<le> ea" and "\<bar>b - b'\<bar> \<le> eb" and "\<bar>a\<bar> \<le> A" and "\<bar>b'\<bar> \<le> B"
  shows "\<bar>a * b - a' * b'\<bar> \<le> A * eb + B * ea"
proof -
  have "a * b - a' * b' = a * (b - b') + (a - a') * b'" by (simp add: algebra_simps)
  then have "\<bar>a * b - a' * b'\<bar> \<le> \<bar>a\<bar> * \<bar>b - b'\<bar> + \<bar>a - a'\<bar> * \<bar>b'\<bar>"
    using abs_triangle_ineq [of "a * (b - b')" "(a - a') * b'"] by (simp add: abs_mult)
  moreover have "\<bar>a\<bar> * \<bar>b - b'\<bar> \<le> A * eb"
    using assms by (intro mult_mono) auto
  moreover have "\<bar>a - a'\<bar> * \<bar>b'\<bar> \<le> ea * B"
    using assms by (intro mult_mono) auto
  ultimately show ?thesis by (simp add: mult.commute)
qed

lemma div_near:
  fixes a b :: rat
  assumes "\<bar>a - a'\<bar> \<le> e" and "\<bar>b - b'\<bar> \<le> e" and "\<bar>a'\<bar> \<le> b'"
    and "d \<le> b" and "d \<le> b'" and "0 < d"
  shows "\<bar>a / b - a' / b'\<bar> \<le> 2 * e / d"
proof -
  have b: "0 < b" "0 < b'" using assms by linarith+
  have e: "0 \<le> e" using assms(1) by linarith
  have "a / b - a' / b' = (a - a') / b + (a' / b') * ((b' - b) / b)"
    using b by (simp add: field_simps)
  then have "\<bar>a / b - a' / b'\<bar> \<le> \<bar>(a - a') / b\<bar> + \<bar>(a' / b') * ((b' - b) / b)\<bar>"
    using abs_triangle_ineq [of "(a - a') / b" "(a' / b') * ((b' - b) / b)"] by simp
  moreover have "\<bar>(a - a') / b\<bar> \<le> e / d"
  proof -
    have "\<bar>(a - a') / b\<bar> = \<bar>a - a'\<bar> / b" using b by simp
    also have "\<dots> \<le> e / b" using assms(1) b by (simp add: divide_right_mono)
    also have "\<dots> \<le> e / d" using assms(4,6) e by (simp add: divide_left_mono)
    finally show ?thesis .
  qed
  moreover have "\<bar>(a' / b') * ((b' - b) / b)\<bar> \<le> e / d"
  proof -
    have q: "\<bar>a' / b'\<bar> \<le> 1" using assms(3) b by simp
    have "\<bar>(b' - b) / b\<bar> = \<bar>b' - b\<bar> / b" using b by simp
    also have "\<dots> \<le> e / b" using assms(2) b by (simp add: divide_right_mono)
    also have "\<dots> \<le> e / d" using assms(4,6) e by (simp add: divide_left_mono)
    finally have r: "\<bar>(b' - b) / b\<bar> \<le> e / d" .
    have "\<bar>a' / b'\<bar> * \<bar>(b' - b) / b\<bar> \<le> 1 * (e / d)"
      using q r by (intro mult_mono) auto
    then show ?thesis by (simp add: abs_mult)
  qed
  ultimately show ?thesis by simp
qed

lemma Math_round_near: "\<bar>of_int (Math_round y) - y\<bar> \<le> 1 / 2"
  unfolding Math_round_def by (rule of_int_round_abs_le)

lemma Math_round_within:
  assumes "\<bar>y - of_int n\<bar> < of_int k + 1 / 2"
  shows "\<bar>Math_round y - n\<bar> \<le> k"
proof -
  have "\<bar>of_int (Math_round y) - of_int n :: rat\<bar> < of_int k + 1"
    using Math_round_near [of y] assms by linarith
  then have "(of_int \<bar>Math_round y - n\<bar> :: rat) < of_int (k + 1)" by simp
  then have "\<bar>Math_round y - n\<bar> < k + 1" by (simp only: of_int_less_iff)
  then show ?thesis by simp
qed


section \<open>What \<open>hslToHex\<close> computes\<close>

text \<open>The six sectors in exact arithmetic.\<close>

lemma wave_sectors:
  "0 \<le> t \<Longrightarrow> t \<le> 1 \<Longrightarrow> waveR t = 1 \<and> waveG t = tri t \<and> waveB t = 0"
  "1 \<le> t \<Longrightarrow> t \<le> 2 \<Longrightarrow> waveR t = tri t \<and> waveG t = 1 \<and> waveB t = 0"
  "2 \<le> t \<Longrightarrow> t \<le> 3 \<Longrightarrow> waveR t = 0 \<and> waveG t = 1 \<and> waveB t = tri t"
  "3 \<le> t \<Longrightarrow> t \<le> 4 \<Longrightarrow> waveR t = 0 \<and> waveG t = tri t \<and> waveB t = 1"
  "4 \<le> t \<Longrightarrow> t \<le> 5 \<Longrightarrow> waveR t = tri t \<and> waveG t = 0 \<and> waveB t = 1"
  "5 \<le> t \<Longrightarrow> t \<le> 6 \<Longrightarrow> waveR t = 1 \<and> waveG t = 0 \<and> waveB t = tri t"
proof -
  show "0 \<le> t \<Longrightarrow> t \<le> 1 \<Longrightarrow> waveR t = 1 \<and> waveG t = tri t \<and> waveB t = 0"
    using tri_sector [of 0 t] by (simp add: waveR_def waveG_def waveB_def clamp01_def)
  show "1 \<le> t \<Longrightarrow> t \<le> 2 \<Longrightarrow> waveR t = tri t \<and> waveG t = 1 \<and> waveB t = 0"
    using tri_sector [of 1 t] by (simp add: waveR_def waveG_def waveB_def clamp01_def)
  show "2 \<le> t \<Longrightarrow> t \<le> 3 \<Longrightarrow> waveR t = 0 \<and> waveG t = 1 \<and> waveB t = tri t"
    using tri_sector [of 2 t] by (simp add: waveR_def waveG_def waveB_def clamp01_def)
  show "3 \<le> t \<Longrightarrow> t \<le> 4 \<Longrightarrow> waveR t = 0 \<and> waveG t = tri t \<and> waveB t = 1"
    using tri_sector [of 3 t] by (simp add: waveR_def waveG_def waveB_def clamp01_def)
  show "4 \<le> t \<Longrightarrow> t \<le> 5 \<Longrightarrow> waveR t = tri t \<and> waveG t = 0 \<and> waveB t = 1"
    using tri_sector [of 4 t] by (simp add: waveR_def waveG_def waveB_def clamp01_def)
  show "5 \<le> t \<Longrightarrow> t \<le> 6 \<Longrightarrow> waveR t = 1 \<and> waveG t = 0 \<and> waveB t = tri t"
    using tri_sector [of 5 t] by (simp add: waveR_def waveG_def waveB_def clamp01_def)
qed

text \<open>The sector tests compare rounded fractions, and decide as the whole degrees do.\<close>

lemma fraction_less:
  assumes "0 \<le> a" and "a < b" and "b \<le> d" and "d \<le> 1000"
  shows "fdiv (of_int a) (of_int d) < fdiv (of_int b) (of_int d)"
proof -
  have d: "(0 :: rat) < of_int d" "(of_int d :: rat) \<le> 1000" using assms by simp_all
  have a: "\<bar>fl (of_int a / of_int d) - of_int a / of_int d\<bar> \<le> 1 / 2 ^ 53"
    using assms by (intro fl_unit_near) simp_all
  have b: "\<bar>fl (of_int b / of_int d) - of_int b / of_int d\<bar> \<le> 1 / 2 ^ 53"
    using assms by (intro fl_unit_near) simp_all
  have "a + 1 \<le> b" using assms by simp
  then have "(of_int a :: rat) + 1 \<le> of_int b" by (metis of_int_1 of_int_add of_int_le_iff)
  then have "((of_int a :: rat) + 1) / of_int d \<le> of_int b / of_int d"
    using d by (intro divide_right_mono) simp_all
  then have "(of_int a :: rat) / of_int d + 1 / of_int d \<le> of_int b / of_int d"
    by (simp add: add_divide_distrib)
  moreover have "(1 :: rat) / 1000 \<le> 1 / of_int d"
    using d by (simp add: field_simps)
  moreover have "(1 :: rat) / 2 ^ 53 < 1 / 2000" by simp
  ultimately show ?thesis unfolding fdiv_def using a b by linarith
qed

lemma fraction_less_iff:
  assumes "0 \<le> a" and "a \<le> d" and "0 \<le> b" and "b \<le> d" and "d \<le> 1000"
  shows "fdiv (of_int a) (of_int d) < fdiv (of_int b) (of_int d) \<longleftrightarrow> a < b"
proof (cases "a < b")
  case True
  with fraction_less [of a b d] assms show ?thesis by simp
next
  case False
  have "0 \<le> d" using assms by simp
  with False have "fl (of_int b / of_int d) \<le> fl (of_int a / of_int d)"
    by (intro fl_mono) (simp add: divide_right_mono)
  with False show ?thesis by (simp add: fdiv_def not_less)
qed

lemma fraction_eq_iff:
  assumes "0 \<le> a" and "a \<le> d" and "0 \<le> b" and "b \<le> d" and "d \<le> 1000"
  shows "fdiv (of_int a) (of_int d) = fdiv (of_int b) (of_int d) \<longleftrightarrow> a = b"
  using fraction_less_iff [of a d b] fraction_less_iff [of b d a] assms by auto

lemmas hue_fraction_less_iff = fraction_less_iff [of _ 360, simplified]

lemma sector_tests:
  assumes "0 \<le> h1" and "h1 < 360"
  shows "0 \<le> fdiv (of_int h1) 360"
    and "fdiv (of_int h1) 360 < fdiv 1 6 \<longleftrightarrow> h1 < 60"
    and "fdiv (of_int h1) 360 < fdiv 2 6 \<longleftrightarrow> h1 < 120"
    and "fdiv (of_int h1) 360 < fdiv 3 6 \<longleftrightarrow> h1 < 180"
    and "fdiv (of_int h1) 360 < fdiv 4 6 \<longleftrightarrow> h1 < 240"
    and "fdiv (of_int h1) 360 < fdiv 5 6 \<longleftrightarrow> h1 < 300"
    and "fdiv (of_int h1) 360 < 1"
proof -
  show "0 \<le> fdiv (of_int h1) 360" using assms by (simp add: fdiv_def fl_nonneg)
  have k: "fdiv 1 6 = fdiv (of_int 60) 360" "fdiv 2 6 = fdiv (of_int 120) 360"
    "fdiv 3 6 = fdiv (of_int 180) 360" "fdiv 4 6 = fdiv (of_int 240) 360"
    "fdiv 5 6 = fdiv (of_int 300) 360"
    by (simp_all add: fdiv_def)
  show "fdiv (of_int h1) 360 < fdiv 1 6 \<longleftrightarrow> h1 < 60"
    unfolding k using assms by (intro hue_fraction_less_iff) simp_all
  show "fdiv (of_int h1) 360 < fdiv 2 6 \<longleftrightarrow> h1 < 120"
    unfolding k using assms by (intro hue_fraction_less_iff) simp_all
  show "fdiv (of_int h1) 360 < fdiv 3 6 \<longleftrightarrow> h1 < 180"
    unfolding k using assms by (intro hue_fraction_less_iff) simp_all
  show "fdiv (of_int h1) 360 < fdiv 4 6 \<longleftrightarrow> h1 < 240"
    unfolding k using assms by (intro hue_fraction_less_iff) simp_all
  show "fdiv (of_int h1) 360 < fdiv 5 6 \<longleftrightarrow> h1 < 300"
    unfolding k using assms by (intro hue_fraction_less_iff) simp_all
  have "fdiv (of_int h1) 360 < fdiv (of_int 360) 360 \<longleftrightarrow> h1 < 360"
    using assms by (intro hue_fraction_less_iff) simp_all
  with assms show "fdiv (of_int h1) 360 < 1" by (simp add: fdiv_def)
qed

lemma sector_tests_le:
  assumes "0 \<le> h1" and "h1 < 360"
  shows "fdiv 1 6 \<le> fdiv (of_int h1) 360 \<longleftrightarrow> 60 \<le> h1"
    and "fdiv 2 6 \<le> fdiv (of_int h1) 360 \<longleftrightarrow> 120 \<le> h1"
    and "fdiv 3 6 \<le> fdiv (of_int h1) 360 \<longleftrightarrow> 180 \<le> h1"
    and "fdiv 4 6 \<le> fdiv (of_int h1) 360 \<longleftrightarrow> 240 \<le> h1"
    and "fdiv 5 6 \<le> fdiv (of_int h1) 360 \<longleftrightarrow> 300 \<le> h1"
  using sector_tests (2-6) [OF assms] by linarith+

lemma hslToRgb_sectors:
  assumes "0 \<le> h1" and "h1 < 360"
  shows "hslToRgb h1 s1 l1 =
     (let ll = fdiv (of_int l1) 100;
          c = fmul (fsub 1 \<bar>fsub (fmul 2 ll) 1\<bar>) (fdiv (of_int s1) 100);
          x = fmul c (fsub 1 \<bar>fsub (jsmod (fmul (fdiv (of_int h1) 360) 6) 2) 1\<bar>);
          m = fsub ll (fdiv c 2);
          (r, g, b) =
            (if h1 < 60 then (c, x, 0)
             else if h1 < 120 then (x, c, 0)
             else if h1 < 180 then (0, c, x)
             else if h1 < 240 then (0, x, c)
             else if h1 < 300 then (x, 0, c)
             else (c, 0, x))
      in (Math_round (fmul (fadd r m) 255),
          Math_round (fmul (fadd g m) 255),
          Math_round (fmul (fadd b m) 255)))"
proof -
  note t = sector_tests [OF assms] sector_tests_le [OF assms]
  consider "h1 < 60" | "60 \<le> h1" "h1 < 120" | "120 \<le> h1" "h1 < 180"
    | "180 \<le> h1" "h1 < 240" | "240 \<le> h1" "h1 < 300" | "300 \<le> h1"
    by linarith
  then show ?thesis
    unfolding hslToRgb_def Let_def by cases (simp_all add: t)
qed


text \<open>
  A channel of \<open>hslToHex\<close> before \<open>Math.round\<close>: the sum rounded, times 255, rounded.
\<close>

lemma channel_near:
  assumes r: "\<bar>rr - chroma * w\<bar> \<le> 21 / 2 ^ 53" "\<bar>rr\<bar> \<le> 1"
    and m: "\<bar>m - (lightness - chroma / 2)\<bar> \<le> 5 / 2 ^ 53" "\<bar>m\<bar> \<le> 1"
  shows "\<bar>fmul (fadd rr m) 255 - 255 * shade lightness chroma w\<bar> \<le> 1 / 2 ^ 40"
proof -
  have e: "shade lightness chroma w = chroma * w + (lightness - chroma / 2)"
    by (simp add: shade_def algebra_simps)
  have "\<bar>(rr + m) - shade lightness chroma w\<bar> \<le> 26 / 2 ^ 53"
    unfolding e using r(1) m(1) by linarith
  moreover have "\<bar>rr + m\<bar> \<le> 2" using r(2) m(2) by linarith
  ultimately have q: "\<bar>fadd rr m - shade lightness chroma w\<bar> \<le> 26 / 2 ^ 53 + 2 / 2 ^ 53"
    unfolding fadd_def by (rule fl_near)
  have "\<bar>fadd rr m\<bar> \<le> fl 2"
    unfolding fadd_def using \<open>\<bar>rr + m\<bar> \<le> 2\<close> by (rule fl_abs_le)
  then have b: "\<bar>fadd rr m\<bar> \<le> 2" by simp
  have "\<bar>fadd rr m * 255 - 255 * shade lightness chroma w\<bar> \<le> 255 * (28 / 2 ^ 53)"
    using q by linarith
  moreover have "\<bar>fadd rr m * 255\<bar> \<le> 510" using b by linarith
  ultimately have "\<bar>fmul (fadd rr m) 255 - 255 * shade lightness chroma w\<bar>
      \<le> 255 * (28 / 2 ^ 53) + 510 / 2 ^ 53"
    unfolding fmul_def by (rule fl_near)
  moreover have "255 * (28 / 2 ^ 53) + 510 / 2 ^ 53 \<le> (1 :: rat) / 2 ^ 40" by simp
  ultimately show ?thesis by linarith
qed

text \<open>The chroma, the second component and the offset of \<open>hslToHex\<close>.\<close>

lemma hslToRgb_parts:
  assumes h: "0 \<le> h1" "h1 < 360" and s: "0 \<le> s1" "s1 \<le> 100" and l: "0 \<le> l1" "l1 \<le> 100"
  defines "ll \<equiv> fdiv (of_int l1) 100"
  defines "c \<equiv> fmul (fsub 1 \<bar>fsub (fmul 2 ll) 1\<bar>) (fdiv (of_int s1) 100)"
  defines "x \<equiv> fmul c (fsub 1 \<bar>fsub (jsmod (fmul (fdiv (of_int h1) 360) 6) 2) 1\<bar>)"
  defines "m \<equiv> fsub ll (fdiv c 2)"
  defines "chroma \<equiv> chromaOf (of_int l1 / 100) (of_int s1 / 100)"
  shows "\<bar>c - chroma\<bar> \<le> 6 / 2 ^ 53" and "\<bar>c\<bar> \<le> 1"
    and "\<bar>x - chroma * tri (of_int h1 / 60)\<bar> \<le> 21 / 2 ^ 53" and "\<bar>x\<bar> \<le> 1"
    and "\<bar>m - (of_int l1 / 100 - chroma / 2)\<bar> \<le> 5 / 2 ^ 53" and "\<bar>m\<bar> \<le> 1"
proof -
  define lam :: rat where "lam = of_int l1 / 100"
  define sig :: rat where "sig = of_int s1 / 100"
  define tau :: rat where "tau = of_int h1 / 60"
  define ss where "ss = fdiv (of_int s1) 100"
  define hh where "hh = fdiv (of_int h1) 360"
  have lam: "0 \<le> lam" "lam \<le> 1" using l by (simp_all add: lam_def)
  have sig: "0 \<le> sig" "sig \<le> 1" using s by (simp_all add: sig_def)
  have tau: "0 \<le> tau" using h by (simp add: tau_def)
  have ll: "0 \<le> ll" "ll \<le> 1" "\<bar>ll - lam\<bar> \<le> 1 / 2 ^ 53"
    unfolding ll_def fdiv_def lam_def [symmetric] using lam by (intro fl_unit_near; simp)+
  have ss: "0 \<le> ss" "ss \<le> 1" "\<bar>ss - sig\<bar> \<le> 1 / 2 ^ 53"
    unfolding ss_def fdiv_def sig_def [symmetric] using sig by (intro fl_unit_near; simp)+
  have h360: "0 \<le> (of_int h1 :: rat) / 360" "(of_int h1 :: rat) / 360 \<le> 1"
    using h by simp_all
  have hh: "0 \<le> hh" "hh \<le> 1" "\<bar>hh - of_int h1 / 360\<bar> \<le> 1 / 2 ^ 53"
    unfolding hh_def fdiv_def using h360 by (intro fl_unit_near; simp)+
  txt \<open>the chroma\<close>
  have fl_ll: "fl ll = ll" by (simp add: ll_def fdiv_def)
  have p: "fmul 2 ll = 2 * ll" by (simp add: fmul_def fl_double fl_ll)
  define a1 where "a1 = fsub (fmul 2 ll) 1"
  have "\<bar>(2 * ll - 1) - (2 * lam - 1)\<bar> \<le> 2 / 2 ^ 53" using ll(3) by linarith
  moreover have b1: "\<bar>2 * ll - 1\<bar> \<le> 1" using ll by linarith
  ultimately have "\<bar>a1 - (2 * lam - 1)\<bar> \<le> 2 / 2 ^ 53 + 1 / 2 ^ 53"
    unfolding a1_def p fsub_def by (rule fl_near)
  then have a1: "\<bar>\<bar>a1\<bar> - \<bar>2 * lam - 1\<bar>\<bar> \<le> 3 / 2 ^ 53" by linarith
  have "\<bar>a1\<bar> \<le> fl 1" unfolding a1_def p fsub_def using b1 by (rule fl_abs_le)
  then have a1b: "\<bar>a1\<bar> \<le> 1" by simp
  define a2 where "a2 = fsub 1 \<bar>a1\<bar>"
  have "\<bar>(1 - \<bar>a1\<bar>) - (1 - \<bar>2 * lam - 1\<bar>)\<bar> \<le> 3 / 2 ^ 53" using a1 by linarith
  moreover have "\<bar>1 - \<bar>a1\<bar>\<bar> \<le> 1" using a1b by linarith
  ultimately have a2: "\<bar>a2 - (1 - \<bar>2 * lam - 1\<bar>)\<bar> \<le> 3 / 2 ^ 53 + 1 / 2 ^ 53"
    unfolding a2_def fsub_def by (rule fl_near)
  have a2b: "0 \<le> a2" "a2 \<le> 1"
    unfolding a2_def fsub_def using a1b by (intro fl_unit_near; linarith)+
  have c_eq: "c = fl (a2 * ss)"
    by (simp add: c_def a2_def a1_def ss_def fmul_def)
  have chroma: "chroma = (1 - \<bar>2 * lam - 1\<bar>) * sig"
    by (simp add: chroma_def chromaOf_def lam_def sig_def)
  have "\<bar>a2 * ss - (1 - \<bar>2 * lam - 1\<bar>) * sig\<bar> \<le> 1 * (1 / 2 ^ 53) + 1 * (4 / 2 ^ 53)"
  proof (rule mul_near)
    show "\<bar>a2 - (1 - \<bar>2 * lam - 1\<bar>)\<bar> \<le> 4 / 2 ^ 53" using a2 by simp
    show "\<bar>ss - sig\<bar> \<le> 1 / 2 ^ 53" by (rule ss(3))
    show "\<bar>a2\<bar> \<le> 1" using a2b by simp
    show "\<bar>sig\<bar> \<le> 1" using sig by simp
  qed
  then have "\<bar>a2 * ss - chroma\<bar> \<le> 5 / 2 ^ 53" unfolding chroma by simp
  moreover have prod: "0 \<le> a2 * ss" "a2 * ss \<le> 1"
    using a2b ss mult_mono [of a2 1 ss 1] by simp_all
  then have "\<bar>a2 * ss\<bar> \<le> 1" by simp
  ultimately have "\<bar>c - chroma\<bar> \<le> 5 / 2 ^ 53 + 1 / 2 ^ 53"
    unfolding c_eq by (rule fl_near)
  then show c: "\<bar>c - chroma\<bar> \<le> 6 / 2 ^ 53" by simp
  have cb: "0 \<le> c" "c \<le> 1" unfolding c_eq using prod by (intro fl_unit_near; simp)+
  then show "\<bar>c\<bar> \<le> 1" by simp
  txt \<open>the position in the sector\<close>
  define t6 where "t6 = fmul hh 6"
  have "\<bar>hh * 6 - tau\<bar> \<le> 6 / 2 ^ 53" using hh(3) unfolding tau_def by linarith
  moreover have "\<bar>hh * 6\<bar> \<le> 6" using hh by linarith
  ultimately have t6: "\<bar>t6 - tau\<bar> \<le> 6 / 2 ^ 53 + 6 / 2 ^ 53"
    unfolding t6_def fmul_def by (rule fl_near)
  have t6p: "0 \<le> t6" unfolding t6_def fmul_def using hh by (intro fl_nonneg) simp
  define jm where "jm = jsmod t6 2"
  have tri6: "tri t6 = 1 - \<bar>jm - 1\<bar>" by (simp add: tri_def jm_def)
  have jmb: "\<bar>jm - 1\<bar> \<le> 1" using tri_range [OF t6p] unfolding tri6 by linarith
  define b1 where "b1 = fsub jm 1"
  have "\<bar>b1 - (jm - 1)\<bar> \<le> 0 + 1 / 2 ^ 53"
    unfolding b1_def fsub_def using jmb by (intro fl_near) simp_all
  then have b1e: "\<bar>\<bar>b1\<bar> - \<bar>jm - 1\<bar>\<bar> \<le> 1 / 2 ^ 53" by linarith
  have "\<bar>b1\<bar> \<le> fl 1" unfolding b1_def fsub_def using jmb by (rule fl_abs_le)
  then have b1b: "\<bar>b1\<bar> \<le> 1" by simp
  define f where "f = fsub 1 \<bar>b1\<bar>"
  have "\<bar>(1 - \<bar>b1\<bar>) - tri t6\<bar> \<le> 1 / 2 ^ 53" unfolding tri6 using b1e by linarith
  moreover have "\<bar>1 - \<bar>b1\<bar>\<bar> \<le> 1" using b1b by linarith
  ultimately have "\<bar>f - tri t6\<bar> \<le> 1 / 2 ^ 53 + 1 / 2 ^ 53"
    unfolding f_def fsub_def by (rule fl_near)
  moreover have "\<bar>tri t6 - tri tau\<bar> \<le> \<bar>t6 - tau\<bar>" using t6p tau by (rule tri_lipschitz)
  ultimately have f: "\<bar>f - tri tau\<bar> \<le> 14 / 2 ^ 53" using t6 by linarith
  have fb: "0 \<le> f" "f \<le> 1"
    unfolding f_def fsub_def using b1b by (intro fl_unit_near; linarith)+
  have x_eq: "x = fl (c * f)"
    by (simp add: x_def f_def b1_def jm_def t6_def hh_def fmul_def)
  have "\<bar>c * f - chroma * tri tau\<bar> \<le> 1 * (14 / 2 ^ 53) + 1 * (6 / 2 ^ 53)"
  proof (rule mul_near)
    show "\<bar>c - chroma\<bar> \<le> 6 / 2 ^ 53" by (rule c)
    show "\<bar>f - tri tau\<bar> \<le> 14 / 2 ^ 53" by (rule f)
    show "\<bar>c\<bar> \<le> 1" using cb by simp
    show "\<bar>tri tau\<bar> \<le> 1" using tri_range [OF tau] by simp
  qed
  then have "\<bar>c * f - chroma * tri tau\<bar> \<le> 20 / 2 ^ 53" by simp
  moreover have prod': "0 \<le> c * f" "c * f \<le> 1"
    using cb fb mult_mono [of c 1 f 1] by simp_all
  then have "\<bar>c * f\<bar> \<le> 1" by simp
  ultimately have "\<bar>x - chroma * tri tau\<bar> \<le> 20 / 2 ^ 53 + 1 / 2 ^ 53"
    unfolding x_eq by (rule fl_near)
  then show "\<bar>x - chroma * tri (of_int h1 / 60)\<bar> \<le> 21 / 2 ^ 53" by (simp add: tau_def)
  have "0 \<le> x" "x \<le> 1" unfolding x_eq using prod' by (intro fl_unit_near; simp)+
  then show "\<bar>x\<bar> \<le> 1" by simp
  txt \<open>the offset\<close>
  have fl_c: "fl c = c" by (simp add: c_eq)
  have half: "fdiv c 2 = c / 2" by (simp add: fdiv_def fl_half fl_c)
  have "\<bar>(ll - c / 2) - (lam - chroma / 2)\<bar> \<le> 4 / 2 ^ 53" using ll(3) c by linarith
  moreover have mb: "\<bar>ll - c / 2\<bar> \<le> 1" using ll cb by linarith
  ultimately have "\<bar>m - (lam - chroma / 2)\<bar> \<le> 4 / 2 ^ 53 + 1 / 2 ^ 53"
    unfolding m_def half fsub_def by (rule fl_near)
  then show "\<bar>m - (of_int l1 / 100 - chroma / 2)\<bar> \<le> 5 / 2 ^ 53" by (simp add: lam_def)
  have "\<bar>m\<bar> \<le> fl 1" unfolding m_def half fsub_def using mb by (rule fl_abs_le)
  then show "\<bar>m\<bar> \<le> 1" by simp
qed

text \<open>
  For a hue below 360, \<open>hslToHex\<close> rounds three numbers that are, up to the rounding of
  its operations, 255 times the shades of the exact colour wheel.
\<close>

lemma hslToRgb_near:
  assumes h: "0 \<le> h1" "h1 < 360" and s: "0 \<le> s1" "s1 \<le> 100" and l: "0 \<le> l1" "l1 \<le> 100"
  shows "\<exists>yr yg yb.
      hslToRgb h1 s1 l1 = (Math_round yr, Math_round yg, Math_round yb)
    \<and> \<bar>yr - 255 * shade (of_int l1 / 100) (chromaOf (of_int l1 / 100) (of_int s1 / 100))
                       (waveR (of_int h1 / 60))\<bar> \<le> 1 / 2 ^ 40
    \<and> \<bar>yg - 255 * shade (of_int l1 / 100) (chromaOf (of_int l1 / 100) (of_int s1 / 100))
                       (waveG (of_int h1 / 60))\<bar> \<le> 1 / 2 ^ 40
    \<and> \<bar>yb - 255 * shade (of_int l1 / 100) (chromaOf (of_int l1 / 100) (of_int s1 / 100))
                       (waveB (of_int h1 / 60))\<bar> \<le> 1 / 2 ^ 40"
proof -
  define ll where "ll = fdiv (of_int l1) 100"
  define c where "c = fmul (fsub 1 \<bar>fsub (fmul 2 ll) 1\<bar>) (fdiv (of_int s1) 100)"
  define x where "x = fmul c (fsub 1 \<bar>fsub (jsmod (fmul (fdiv (of_int h1) 360) 6) 2) 1\<bar>)"
  define m where "m = fsub ll (fdiv c 2)"
  define lam :: rat where "lam = of_int l1 / 100"
  define chroma where "chroma = chromaOf (of_int l1 / 100) (of_int s1 / 100)"
  define tau :: rat where "tau = of_int h1 / 60"
  define Y where "Y rr = fmul (fadd rr m) 255" for rr
  have c: "\<bar>c - chroma\<bar> \<le> 6 / 2 ^ 53" "\<bar>c\<bar> \<le> 1"
    unfolding c_def ll_def chroma_def by (rule hslToRgb_parts [OF assms])+
  have x: "\<bar>x - chroma * tri tau\<bar> \<le> 21 / 2 ^ 53" "\<bar>x\<bar> \<le> 1"
    unfolding x_def c_def ll_def chroma_def tau_def by (rule hslToRgb_parts [OF assms])+
  have m: "\<bar>m - (lam - chroma / 2)\<bar> \<le> 5 / 2 ^ 53" "\<bar>m\<bar> \<le> 1"
    unfolding m_def c_def ll_def chroma_def lam_def by (rule hslToRgb_parts [OF assms])+
  have Yc: "\<bar>Y c - 255 * shade lam chroma 1\<bar> \<le> 1 / 2 ^ 40"
    unfolding Y_def using c m by (intro channel_near) simp_all
  have Yx: "\<bar>Y x - 255 * shade lam chroma (tri tau)\<bar> \<le> 1 / 2 ^ 40"
    unfolding Y_def using x m by (intro channel_near) simp_all
  have Y0: "\<bar>Y 0 - 255 * shade lam chroma 0\<bar> \<le> 1 / 2 ^ 40"
    unfolding Y_def using m by (intro channel_near) simp_all
  have run: "hslToRgb h1 s1 l1 =
     (case (if h1 < 60 then (c, x, 0)
             else if h1 < 120 then (x, c, 0)
             else if h1 < 180 then (0, c, x)
             else if h1 < 240 then (0, x, c)
             else if h1 < 300 then (x, 0, c)
             else (c, 0, x)) of
        (r, g, b) \<Rightarrow> (Math_round (Y r), Math_round (Y g), Math_round (Y b)))"
    unfolding hslToRgb_sectors [OF h] Let_def Y_def m_def x_def c_def ll_def ..
  have tau: "tau * 60 = of_int h1" by (simp add: tau_def)
  consider "h1 < 60" | "60 \<le> h1" "h1 < 120" | "120 \<le> h1" "h1 < 180"
    | "180 \<le> h1" "h1 < 240" | "240 \<le> h1" "h1 < 300" | "300 \<le> h1"
    by linarith
  then have "\<exists>yr yg yb.
      hslToRgb h1 s1 l1 = (Math_round yr, Math_round yg, Math_round yb)
    \<and> \<bar>yr - 255 * shade lam chroma (waveR tau)\<bar> \<le> 1 / 2 ^ 40
    \<and> \<bar>yg - 255 * shade lam chroma (waveG tau)\<bar> \<le> 1 / 2 ^ 40
    \<and> \<bar>yb - 255 * shade lam chroma (waveB tau)\<bar> \<le> 1 / 2 ^ 40"
  proof cases
    case 1
    then have "0 \<le> tau" "tau \<le> 1" using h by (simp_all add: tau_def)
    then have w: "waveR tau = 1 \<and> waveG tau = tri tau \<and> waveB tau = 0" by (rule wave_sectors)
    from 1 have "hslToRgb h1 s1 l1 = (Math_round (Y c), Math_round (Y x), Math_round (Y 0))"
      by (simp add: run)
    with Yc Yx Y0 w show ?thesis by auto
  next
    case 2
    then have "1 \<le> tau" "tau \<le> 2" by (simp_all add: tau_def)
    then have w: "waveR tau = tri tau \<and> waveG tau = 1 \<and> waveB tau = 0" by (rule wave_sectors)
    from 2 have "hslToRgb h1 s1 l1 = (Math_round (Y x), Math_round (Y c), Math_round (Y 0))"
      by (simp add: run)
    with Yc Yx Y0 w show ?thesis by auto
  next
    case 3
    then have "2 \<le> tau" "tau \<le> 3" by (simp_all add: tau_def)
    then have w: "waveR tau = 0 \<and> waveG tau = 1 \<and> waveB tau = tri tau" by (rule wave_sectors)
    from 3 have "hslToRgb h1 s1 l1 = (Math_round (Y 0), Math_round (Y c), Math_round (Y x))"
      by (simp add: run)
    with Yc Yx Y0 w show ?thesis by auto
  next
    case 4
    then have "3 \<le> tau" "tau \<le> 4" by (simp_all add: tau_def)
    then have w: "waveR tau = 0 \<and> waveG tau = tri tau \<and> waveB tau = 1" by (rule wave_sectors)
    from 4 have "hslToRgb h1 s1 l1 = (Math_round (Y 0), Math_round (Y x), Math_round (Y c))"
      by (simp add: run)
    with Yc Yx Y0 w show ?thesis by auto
  next
    case 5
    then have "4 \<le> tau" "tau \<le> 5" by (simp_all add: tau_def)
    then have w: "waveR tau = tri tau \<and> waveG tau = 0 \<and> waveB tau = 1" by (rule wave_sectors)
    from 5 have "hslToRgb h1 s1 l1 = (Math_round (Y x), Math_round (Y 0), Math_round (Y c))"
      by (simp add: run)
    with Yc Yx Y0 w show ?thesis by auto
  next
    case 6
    then have "5 \<le> tau" "tau \<le> 6" using h by (simp_all add: tau_def)
    then have w: "waveR tau = 1 \<and> waveG tau = 0 \<and> waveB tau = tri tau" by (rule wave_sectors)
    from 6 have "hslToRgb h1 s1 l1 = (Math_round (Y c), Math_round (Y 0), Math_round (Y x))"
      by (simp add: run)
    with Yc Yx Y0 w show ?thesis by auto
  qed
  then show ?thesis unfolding lam_def chroma_def tau_def .
qed


section \<open>The exact hue, saturation and lightness of a colour\<close>

lemma wave_values:
  "0 \<le> t \<Longrightarrow> t \<le> 1 \<Longrightarrow> waveR t = 1 \<and> waveG t = t \<and> waveB t = 0"
  "1 \<le> t \<Longrightarrow> t \<le> 2 \<Longrightarrow> waveR t = 2 - t \<and> waveG t = 1 \<and> waveB t = 0"
  "2 \<le> t \<Longrightarrow> t \<le> 3 \<Longrightarrow> waveR t = 0 \<and> waveG t = 1 \<and> waveB t = t - 2"
  "3 \<le> t \<Longrightarrow> t \<le> 4 \<Longrightarrow> waveR t = 0 \<and> waveG t = 4 - t \<and> waveB t = 1"
  "4 \<le> t \<Longrightarrow> t \<le> 5 \<Longrightarrow> waveR t = t - 4 \<and> waveG t = 0 \<and> waveB t = 1"
  "5 \<le> t \<Longrightarrow> t \<le> 6 \<Longrightarrow> waveR t = 1 \<and> waveG t = 0 \<and> waveB t = 6 - t"
  by (simp_all add: waveR_def waveG_def waveB_def clamp01_def)

lemma light_exact_range:
  assumes "0 \<le> R" "R \<le> 255" "0 \<le> G" "G \<le> 255" "0 \<le> B" "B \<le> 255"
  shows "0 \<le> lightExact R G B" and "lightExact R G B \<le> 1"
  using assms by (simp_all add: lightExact_def)

lemma chroma_exact_range:
  assumes "0 \<le> R" "R \<le> 255" "0 \<le> G" "G \<le> 255" "0 \<le> B" "B \<le> 255"
  shows "0 \<le> chromaExact R G B" and "chromaExact R G B \<le> 1 - \<bar>2 * lightExact R G B - 1\<bar>"
proof -
  define M where "M = max R (max G B)"
  define m where "m = min R (min G B)"
  have b: "m \<le> M" "0 \<le> m" "M \<le> 255" using assms by (simp_all add: M_def m_def)
  then have q: "(of_int m :: rat) \<le> of_int M" "(0 :: rat) \<le> of_int m" "(of_int M :: rat) \<le> 255"
    by simp_all
  show "0 \<le> chromaExact R G B"
    using b by (simp add: chromaExact_def M_def [symmetric] m_def [symmetric])
  have "chromaExact R G B = (of_int M - of_int m) / 255"
    by (simp add: chromaExact_def M_def m_def)
  moreover have "lightExact R G B = (of_int M + of_int m) / 510"
    by (simp add: lightExact_def M_def m_def)
  ultimately show "chromaExact R G B \<le> 1 - \<bar>2 * lightExact R G B - 1\<bar>"
    using q by (simp add: abs_if field_simps)
qed

lemma sat_exact_range:
  assumes "0 \<le> R" "R \<le> 255" "0 \<le> G" "G \<le> 255" "0 \<le> B" "B \<le> 255"
  shows "0 \<le> satExact R G B" and "satExact R G B \<le> 1"
proof -
  note c = chroma_exact_range [OF assms]
  show "0 \<le> satExact R G B"
    using c by (simp add: satExact_def)
  show "satExact R G B \<le> 1"
  proof (cases "max R (max G B) = min R (min G B)")
    case True
    then show ?thesis by (simp add: satExact_def)
  next
    case False
    then have "0 < chromaExact R G B"
      using c(1) by (simp add: chromaExact_def less_le)
    with c(2) have "0 < 1 - \<bar>2 * lightExact R G B - 1\<bar>" by linarith
    with c(2) False show ?thesis by (simp add: satExact_def)
  qed
qed

lemma chroma_exact:
  assumes "0 \<le> R" "R \<le> 255" "0 \<le> G" "G \<le> 255" "0 \<le> B" "B \<le> 255"
  shows "chromaOf (lightExact R G B) (satExact R G B) = chromaExact R G B"
proof (cases "max R (max G B) = min R (min G B)")
  case True
  then show ?thesis by (simp add: chromaOf_def satExact_def chromaExact_def)
next
  case False
  note c = chroma_exact_range [OF assms]
  from False have "0 < chromaExact R G B"
    using c(1) by (simp add: chromaExact_def less_le)
  with c(2) have "0 < 1 - \<bar>2 * lightExact R G B - 1\<bar>" by linarith
  with False show ?thesis by (simp add: chromaOf_def satExact_def)
qed

text \<open>A channel is the least channel plus its wave times the spread.\<close>

lemma shade_exact:
  "255 * shade (lightExact R G B) (chromaExact R G B) w
     = of_int (min R (min G B)) + of_int (max R (max G B) - min R (min G B)) * w"
  by (simp add: shade_def lightExact_def chromaExact_def field_simps)

lemma hue_exact_waves:
  assumes ne: "max R (max G B) \<noteq> min R (min G B)"
  defines "d \<equiv> of_int (max R (max G B) - min R (min G B)) :: rat"
  shows "0 \<le> hueExact R G B \<and> hueExact R G B \<le> 6
       \<and> waveR (hueExact R G B) * d = of_int (R - min R (min G B))
       \<and> waveG (hueExact R G B) * d = of_int (G - min R (min G B))
       \<and> waveB (hueExact R G B) * d = of_int (B - min R (min G B))"
proof -
  define M where "M = max R (max G B)"
  define m where "m = min R (min G B)"
  have d: "d = of_int (M - m)" by (simp add: d_def M_def m_def)
  have Mm: "m < M" using ne by (simp add: M_def m_def)
  then have dpos: "0 < d" by (simp add: d)
  have q: "0 \<le> of_int (a - b) / d \<and> of_int (a - b) / d \<le> 1 \<and> of_int (a - b) / d * d = of_int (a - b)"
    if "b \<le> a" "a - b \<le> M - m" for a b
  proof -
    have "(of_int (a - b) :: rat) \<le> of_int (M - m)" using that(2) by (simp only: of_int_le_iff)
    moreover have "(0 :: rat) \<le> of_int (a - b)" using that(1) by simp
    ultimately show ?thesis using dpos by (simp add: d)
  qed
  have hue: "hueExact R G B =
     (if M = R then of_int (G - B) / d + (if G < B then 6 else 0)
      else if M = G then of_int (B - R) / d + 2
      else of_int (R - G) / d + 4)"
    unfolding hueExact_def Let_def M_def [symmetric] m_def [symmetric] d using Mm by simp
  have bounds: "R \<le> M" "G \<le> M" "B \<le> M" "m \<le> R" "m \<le> G" "m \<le> B"
    by (simp_all add: M_def m_def)
  have least: "m = R \<or> m = G \<or> m = B" unfolding m_def by linarith
  have most: "M = R \<or> M = G \<or> M = B" unfolding M_def by linarith
  consider (rg) "M = R" "B \<le> G" | (rb) "M = R" "G < B" | (gb) "M \<noteq> R" "M = G" "R \<le> B"
    | (gr) "M \<noteq> R" "M = G" "B < R" | (br) "M \<noteq> R" "M \<noteq> G" "G \<le> R" | (bg) "M \<noteq> R" "M \<noteq> G" "R < G"
    by linarith
  then have "0 \<le> hueExact R G B \<and> hueExact R G B \<le> 6
       \<and> waveR (hueExact R G B) * d = of_int (R - m)
       \<and> waveG (hueExact R G B) * d = of_int (G - m)
       \<and> waveB (hueExact R G B) * d = of_int (B - m)"
  proof cases
    case rg
    then have m: "m = B" and M: "R - m = M - m" using bounds least most by linarith+
    have t: "hueExact R G B = of_int (G - B) / d"
      using rg by (simp add: hue)
    have "G - B \<le> M - m" using rg using bounds by (simp add: m)
    from q [OF rg(2) this] show ?thesis
      unfolding t using wave_values(1) [of "of_int (G - B) / d"] by (simp add: m rg(1) [symmetric] d)
  next
    case rb
    then have m: "m = G" using bounds least most by linarith
    have t: "hueExact R G B = 6 - of_int (B - G) / d"
      using rb by (simp add: hue diff_divide_distrib)
    have "G \<le> B" "B - G \<le> M - m" using rb using bounds by (simp_all add: m)
    from q [OF this] show ?thesis
      unfolding t using wave_values(6) [of "6 - of_int (B - G) / d"]
      by (simp add: m rb(1) [symmetric] d algebra_simps)
  next
    case gb
    then have m: "m = R" using bounds least most by linarith
    have t: "hueExact R G B = of_int (B - R) / d + 2"
      using gb by (simp add: hue)
    have "B - R \<le> M - m" using gb using bounds by (simp add: m)
    from q [OF gb(3) this] show ?thesis
      unfolding t using wave_values(3) [of "of_int (B - R) / d + 2"]
      by (simp add: m gb(2) [symmetric] d algebra_simps)
  next
    case gr
    then have m: "m = B" using bounds least most by linarith
    have t: "hueExact R G B = 2 - of_int (R - B) / d"
      using gr by (simp add: hue diff_divide_distrib)
    have "B \<le> R" "R - B \<le> M - m" using gr using bounds by (simp_all add: m)
    from q [OF this] show ?thesis
      unfolding t using wave_values(2) [of "2 - of_int (R - B) / d"]
      by (simp add: m gr(2) [symmetric] d algebra_simps)
  next
    case br
    then have MB: "M = B" and m: "m = G" using bounds least most by linarith+
    have t: "hueExact R G B = of_int (R - G) / d + 4"
      using br by (simp add: hue)
    have "R - G \<le> M - m" using br using bounds by (simp add: m)
    from q [OF br(3) this] show ?thesis
      unfolding t using wave_values(5) [of "of_int (R - G) / d + 4"]
      by (simp add: m MB [symmetric] d algebra_simps)
  next
    case bg
    then have MB: "M = B" and m: "m = R" using bounds least most by linarith+
    have t: "hueExact R G B = 4 - of_int (G - R) / d"
      using bg by (simp add: hue diff_divide_distrib)
    have "R \<le> G" "G - R \<le> M - m" using bg using bounds by (simp_all add: m)
    from q [OF this] show ?thesis
      unfolding t using wave_values(4) [of "4 - of_int (G - R) / d"]
      by (simp add: m MB [symmetric] d algebra_simps)
  qed
  then show ?thesis by (simp add: m_def)
qed


section \<open>What \<open>hexToHsl\<close> computes\<close>

lemma fl_max: "fl (max x y) = max (fl x) (fl y)"
  using fl_mono [of x y] fl_mono [of y x] by (cases "x \<le> y") (simp_all add: max_def)

lemma fl_min: "fl (min x y) = min (fl x) (fl y)"
  using fl_mono [of x y] fl_mono [of y x] by (cases "x \<le> y") (simp_all add: min_def)

lemma byte_fraction:
  assumes "0 \<le> n" and "n \<le> 255"
  shows "0 \<le> fdiv (of_int n) 255" and "fdiv (of_int n) 255 \<le> 1"
    and "\<bar>fdiv (of_int n) 255 - of_int n / 255\<bar> \<le> 1 / 2 ^ 53"
  unfolding fdiv_def using assms by (intro fl_unit_near; simp)+

lemma byte_fraction_max:
  "max (fdiv (of_int R) 255) (max (fdiv (of_int G) 255) (fdiv (of_int B) 255))
     = fdiv (of_int (max R (max G B))) 255"
proof -
  have "(of_int (max R (max G B)) :: rat) / 255 = max (of_int R / 255) (max (of_int G / 255) (of_int B / 255))"
    by (simp add: max_def)
  then show ?thesis by (simp only: fdiv_def fl_max)
qed

lemma byte_fraction_min:
  "min (fdiv (of_int R) 255) (min (fdiv (of_int G) 255) (fdiv (of_int B) 255))
     = fdiv (of_int (min R (min G B))) 255"
proof -
  have "(of_int (min R (min G B)) :: rat) / 255 = min (of_int R / 255) (min (of_int G / 255) (of_int B / 255))"
    by (simp add: min_def)
  then show ?thesis by (simp only: fdiv_def fl_min)
qed

lemmas byte_fraction_less_iff = fraction_less_iff [of _ 255, simplified]
lemmas byte_fraction_eq_iff = fraction_eq_iff [of _ 255, simplified]

text \<open>The tests of \<open>hexToHsl\<close> on the fractions decide as the channels do.\<close>

lemma rgbToHsl_tests:
  assumes bytes: "0 \<le> R" "R \<le> 255" "0 \<le> G" "G \<le> 255" "0 \<le> B" "B \<le> 255"
  defines "M \<equiv> max R (max G B)" and "m \<equiv> min R (min G B)"
  shows "rgbToHsl R G B =
     (let mx = fdiv (of_int M) 255;
          mn = fdiv (of_int m) 255;
          diff = fsub mx mn;
          l0 = fdiv (fadd mx mn) 2;
          s0 = (if M \<noteq> m
                then (if 1 / 2 < l0 then fdiv diff (fsub (fsub 2 mx) mn)
                      else fdiv diff (fadd mx mn))
                else 0);
          h0 = (if M \<noteq> m
                then fdiv (if M = R
                           then fadd (fdiv (fsub (fdiv (of_int G) 255) (fdiv (of_int B) 255)) diff)
                                  (if G < B then 6 else 0)
                           else if M = G
                           then fadd (fdiv (fsub (fdiv (of_int B) 255) (fdiv (of_int R) 255)) diff) 2
                           else fadd (fdiv (fsub (fdiv (of_int R) 255) (fdiv (of_int G) 255)) diff) 4) 6
                else 0)
      in \<lparr> h = Math_round (fmul h0 360),
           s = Math_round (fmul s0 100),
           l = Math_round (fmul l0 100) \<rparr>)"
proof -
  have Mb: "0 \<le> M" "M \<le> 255" and mb: "0 \<le> m" "m \<le> 255"
    using bytes by (simp_all add: M_def m_def)
  have mx: "max (fdiv (of_int R) 255) (max (fdiv (of_int G) 255) (fdiv (of_int B) 255))
      = fdiv (of_int M) 255"
    unfolding M_def by (rule byte_fraction_max)
  have mn: "min (fdiv (of_int R) 255) (min (fdiv (of_int G) 255) (fdiv (of_int B) 255))
      = fdiv (of_int m) 255"
    unfolding m_def by (rule byte_fraction_min)
  have zero: "fsub (fdiv (of_int M) 255) (fdiv (of_int m) 255) = 0 \<longleftrightarrow> M = m"
    using byte_fraction_eq_iff [of M m] Mb mb by (simp add: fsub_def)
  have eq: "fdiv (of_int M) 255 = fdiv (of_int R) 255 \<longleftrightarrow> M = R"
    "fdiv (of_int M) 255 = fdiv (of_int G) 255 \<longleftrightarrow> M = G"
    "fdiv (of_int M) 255 = fdiv (of_int B) 255 \<longleftrightarrow> M = B"
    using Mb bytes by (simp_all add: byte_fraction_eq_iff)
  have less: "fdiv (of_int G) 255 < fdiv (of_int B) 255 \<longleftrightarrow> G < B"
    using bytes by (simp add: byte_fraction_less_iff)
  have most: "M \<noteq> R \<Longrightarrow> M \<noteq> G \<Longrightarrow> M = B" unfolding M_def by linarith
  consider "M = m" | "M \<noteq> m" "M = R" | "M \<noteq> m" "M \<noteq> R" "M = G"
    | "M \<noteq> m" "M \<noteq> R" "M \<noteq> G" "M = B"
    using most by blast
  then show ?thesis
    unfolding rgbToHsl_def Let_def mx mn zero eq less
    by cases simp_all
qed

text \<open>The lightness before and after its rounding to a whole percentage.\<close>

lemma lightness_near:
  assumes "0 \<le> m" and "m \<le> M" and "M \<le> 255"
  defines "mx \<equiv> fdiv (of_int M) 255" and "mn \<equiv> fdiv (of_int m) 255"
  defines "l0 \<equiv> fdiv (fadd mx mn) 2"
  shows "\<bar>fadd mx mn - of_int (M + m) / 255\<bar> \<le> 4 / 2 ^ 53"
    and "\<bar>l0 - of_int (M + m) / 510\<bar> \<le> 2 / 2 ^ 53"
    and "0 \<le> l0" and "l0 \<le> 1"
    and "\<bar>of_int (Math_round (fmul l0 100)) - 100 * (of_int (M + m) / 510 :: rat)\<bar> \<le> 1 / 2 + 1 / 2 ^ 30"
    and "1 / 2 < l0 \<Longrightarrow> 255 \<le> M + m"
    and "\<not> 1 / 2 < l0 \<Longrightarrow> M + m \<le> 255"
proof -
  have Mb: "0 \<le> M" "M \<le> 255" and mb: "0 \<le> m" "m \<le> 255" using assms by simp_all
  note x = byte_fraction [OF Mb, folded mx_def]
  note n = byte_fraction [OF mb, folded mn_def]
  have e: "(of_int (M + m) :: rat) / 255 = of_int M / 255 + of_int m / 255"
    by (simp add: add_divide_distrib)
  have "\<bar>(mx + mn) - of_int (M + m) / 255\<bar> \<le> 2 / 2 ^ 53"
    unfolding e using x(3) n(3) by linarith
  moreover have b: "\<bar>mx + mn\<bar> \<le> 2" using x n by linarith
  ultimately have "\<bar>fadd mx mn - of_int (M + m) / 255\<bar> \<le> 2 / 2 ^ 53 + 2 / 2 ^ 53"
    unfolding fadd_def by (rule fl_near)
  then show sum: "\<bar>fadd mx mn - of_int (M + m) / 255\<bar> \<le> 4 / 2 ^ 53" by simp
  have "\<bar>fadd mx mn\<bar> \<le> fl 2" unfolding fadd_def using b by (rule fl_abs_le)
  moreover have "0 \<le> fadd mx mn" unfolding fadd_def using x n by (intro fl_nonneg) simp
  ultimately have sb: "0 \<le> fadd mx mn" "fadd mx mn \<le> 2" by simp_all
  have l0: "l0 = fadd mx mn / 2" by (simp add: l0_def fdiv_def fl_half fadd_def)
  have h: "(of_int (M + m) :: rat) / 510 = of_int (M + m) / 255 / 2" by simp
  show near: "\<bar>l0 - of_int (M + m) / 510\<bar> \<le> 2 / 2 ^ 53"
    unfolding l0 h using sum by linarith
  show lb: "0 \<le> l0" "l0 \<le> 1" unfolding l0 using sb by simp_all
  have "\<bar>l0 * 100 - 100 * (of_int (M + m) / 510)\<bar> \<le> 200 / 2 ^ 53" using near by linarith
  moreover have "\<bar>l0 * 100\<bar> \<le> 100" using lb by linarith
  ultimately have "\<bar>fmul l0 100 - 100 * (of_int (M + m) / 510)\<bar> \<le> 200 / 2 ^ 53 + 100 / 2 ^ 53"
    unfolding fmul_def by (rule fl_near)
  moreover have "(200 :: rat) / 2 ^ 53 + 100 / 2 ^ 53 \<le> 1 / 2 ^ 30" by simp
  ultimately show "\<bar>of_int (Math_round (fmul l0 100)) - 100 * (of_int (M + m) / 510 :: rat)\<bar>
      \<le> 1 / 2 + 1 / 2 ^ 30"
    using Math_round_near [of "fmul l0 100"] by linarith
  have small: "(2 :: rat) / 2 ^ 53 < 1 / 1020" by simp
  show "255 \<le> M + m" if "1 / 2 < l0"
  proof (rule ccontr)
    assume "\<not> 255 \<le> M + m"
    then have "M + m \<le> 254" by simp
    then have "(of_int (M + m) :: rat) \<le> 254" by (metis of_int_le_iff of_int_numeral)
    then have "(of_int (M + m) :: rat) / 510 \<le> 254 / 510" by simp
    with near small that show False by linarith
  qed
  show "M + m \<le> 255" if "\<not> 1 / 2 < l0"
  proof (rule ccontr)
    assume "\<not> M + m \<le> 255"
    then have "256 \<le> M + m" by simp
    then have "(256 :: rat) \<le> of_int (M + m)" by (metis of_int_le_iff of_int_numeral)
    then have "(256 :: rat) / 510 \<le> of_int (M + m) / 510" by simp
    with near small that show False by linarith
  qed
qed

text \<open>The spread of the channels.\<close>

lemma diff_near:
  assumes "0 \<le> m" and "m < M" and "M \<le> 255"
  defines "diff \<equiv> fsub (fdiv (of_int M) 255) (fdiv (of_int m) 255)"
  shows "\<bar>diff - of_int (M - m) / 255\<bar> \<le> 3 / 2 ^ 53"
    and "1 / 255 \<le> (of_int (M - m) :: rat) / 255"
    and "1 / 256 \<le> diff"
proof -
  have Mb: "0 \<le> M" "M \<le> 255" and mb: "0 \<le> m" "m \<le> 255" using assms by simp_all
  note x = byte_fraction [OF Mb]
  note n = byte_fraction [OF mb]
  have e: "(of_int (M - m) :: rat) / 255 = of_int M / 255 - of_int m / 255"
    by (simp add: diff_divide_distrib)
  have "\<bar>(fdiv (of_int M) 255 - fdiv (of_int m) 255) - of_int (M - m) / 255\<bar> \<le> 2 / 2 ^ 53"
    unfolding e using x(3) n(3) by linarith
  moreover have "\<bar>fdiv (of_int M) 255 - fdiv (of_int m) 255\<bar> \<le> 1" using x n by linarith
  ultimately have "\<bar>diff - of_int (M - m) / 255\<bar> \<le> 2 / 2 ^ 53 + 1 / 2 ^ 53"
    unfolding diff_def fsub_def by (rule fl_near)
  then show near: "\<bar>diff - of_int (M - m) / 255\<bar> \<le> 3 / 2 ^ 53" by simp
  have "1 \<le> M - m" using assms by simp
  then have "(1 :: rat) \<le> of_int (M - m)" by (metis of_int_le_iff of_int_1)
  then show low: "1 / 255 \<le> (of_int (M - m) :: rat) / 255" by simp
  have "(1 :: rat) / 256 \<le> 1 / 255 - 3 / 2 ^ 53" by simp
  with near low show "1 / 256 \<le> diff" by linarith
qed

text \<open>The saturation: both branches divide the spread by \<open>1 - |2 L - 1|\<close>.\<close>

lemma saturation_near:
  assumes "0 \<le> m" and "m < M" and "M \<le> 255"
  defines "mx \<equiv> fdiv (of_int M) 255" and "mn \<equiv> fdiv (of_int m) 255"
  defines "diff \<equiv> fsub mx mn" and "l0 \<equiv> fdiv (fadd mx mn) 2"
  defines "s0 \<equiv> (if 1 / 2 < l0 then fdiv diff (fsub (fsub 2 mx) mn) else fdiv diff (fadd mx mn))"
  shows "\<bar>of_int (Math_round (fmul s0 100))
           - 100 * (of_int (M - m) / 255 / (1 - \<bar>2 * (of_int (M + m) / 510) - 1\<bar>) :: rat)\<bar>
         \<le> 1 / 2 + 1 / 2 ^ 30"
proof -
  define Dl :: rat where "Dl = of_int (M - m) / 255"
  define L :: rat where "L = of_int (M + m) / 510"
  define D :: rat where "D = 1 - \<bar>2 * L - 1\<bar>"
  have Mb: "0 \<le> M" "M \<le> 255" and mb: "0 \<le> m" "m \<le> 255" and le: "m \<le> M"
    using assms by simp_all
  note x = byte_fraction [OF Mb, folded mx_def]
  note n = byte_fraction [OF mb, folded mn_def]
  note dn = diff_near [OF assms(1-3), folded mx_def mn_def diff_def Dl_def]
  note ln = lightness_near [OF assms(1) le assms(3), folded mx_def mn_def l0_def L_def]
  have rM: "(0 :: rat) \<le> of_int M" "(of_int M :: rat) \<le> 255"
    and rm: "(0 :: rat) \<le> of_int m" "(of_int m :: rat) \<le> of_int M"
    using Mb mb le by simp_all
  have L: "2 * L = of_int M / 255 + of_int m / 255"
    by (simp add: L_def add_divide_distrib)
  have Dl: "Dl = of_int M / 255 - of_int m / 255"
    by (simp add: Dl_def diff_divide_distrib)
  have key: "\<exists>den. s0 = fl (diff / den) \<and> \<bar>den - D\<bar> \<le> 6 / 2 ^ 53 \<and> 1 / 255 \<le> D \<and> Dl \<le> D"
  proof (cases "1 / 2 < l0")
    case True
    then have "255 \<le> M + m" by (rule ln(6))
    then have "(255 :: rat) \<le> of_int (M + m)" by (metis of_int_le_iff of_int_numeral)
    then have "1 \<le> 2 * L" by (simp add: L_def)
    then have D: "D = 2 - of_int M / 255 - of_int m / 255" unfolding D_def using L by linarith
    define t1 where "t1 = fsub 2 mx"
    have "\<bar>(2 - mx) - (2 - of_int M / 255)\<bar> \<le> 1 / 2 ^ 53" using x(3) by linarith
    moreover have "\<bar>2 - mx\<bar> \<le> 2" using x by linarith
    ultimately have t1: "\<bar>t1 - (2 - of_int M / 255)\<bar> \<le> 1 / 2 ^ 53 + 2 / 2 ^ 53"
      unfolding t1_def fsub_def by (rule fl_near)
    have "0 \<le> t1" unfolding t1_def fsub_def using x by (intro fl_nonneg) simp
    moreover have "t1 \<le> fl 2" unfolding t1_def fsub_def using x by (intro fl_mono) simp
    ultimately have t1b: "0 \<le> t1" "t1 \<le> 2" by simp_all
    have "\<bar>(t1 - mn) - D\<bar> \<le> 4 / 2 ^ 53" unfolding D using t1 n(3) by linarith
    moreover have "\<bar>t1 - mn\<bar> \<le> 2" using t1b n by linarith
    ultimately have "\<bar>fsub t1 mn - D\<bar> \<le> 4 / 2 ^ 53 + 2 / 2 ^ 53"
      unfolding fsub_def by (rule fl_near)
    then have den: "\<bar>fsub t1 mn - D\<bar> \<le> 6 / 2 ^ 53" by simp
    have "M + m \<le> 509" using assms by simp
    then have "(of_int (M + m) :: rat) \<le> 509" by (metis of_int_le_iff of_int_numeral)
    then have "(of_int M :: rat) + of_int m \<le> 509" by simp
    then have low: "1 / 255 \<le> D" unfolding D by (simp add: field_simps)
    have "Dl \<le> D" unfolding D Dl using rM by (simp add: field_simps)
    with den low True show ?thesis
      by (intro exI [of _ "fsub t1 mn"]) (simp add: s0_def fdiv_def t1_def)
  next
    case False
    then have "M + m \<le> 255" by (rule ln(7))
    then have "(of_int (M + m) :: rat) \<le> 255" by (metis of_int_le_iff of_int_numeral)
    then have "2 * L \<le> 1" by (simp add: L_def)
    then have D: "D = of_int M / 255 + of_int m / 255" unfolding D_def using L by linarith
    have "\<bar>fadd mx mn - D\<bar> \<le> 4 / 2 ^ 53"
      using ln(1) unfolding D by (simp add: add_divide_distrib)
    then have den: "\<bar>fadd mx mn - D\<bar> \<le> 6 / 2 ^ 53" by simp
    have "1 \<le> M + m" using assms by simp
    then have "(1 :: rat) \<le> of_int (M + m)" by (metis of_int_le_iff of_int_1)
    then have "(1 :: rat) \<le> of_int M + of_int m" by simp
    then have low: "1 / 255 \<le> D" unfolding D by (simp add: field_simps)
    have "Dl \<le> D" unfolding D Dl using rm by simp
    with den low False show ?thesis
      by (intro exI [of _ "fadd mx mn"]) (simp add: s0_def fdiv_def)
  qed
  then obtain den where s0: "s0 = fl (diff / den)" and den: "\<bar>den - D\<bar> \<le> 6 / 2 ^ 53"
    and low: "1 / 255 \<le> D" and DlD: "Dl \<le> D" by blast
  have Dlp: "0 \<le> Dl" using dn(2) by simp
  have small: "(1 :: rat) / 256 \<le> 1 / 255 - 6 / 2 ^ 53" by simp
  have "\<bar>diff / den - Dl / D\<bar> \<le> 2 * (6 / 2 ^ 53) / (1 / 256)"
  proof (rule div_near)
    show "\<bar>diff - Dl\<bar> \<le> 6 / 2 ^ 53" using dn(1) by simp
    show "\<bar>den - D\<bar> \<le> 6 / 2 ^ 53" by (rule den)
    show "\<bar>Dl\<bar> \<le> D" using Dlp DlD by simp
    show "1 / 256 \<le> den" using den low small by linarith
    show "1 / 256 \<le> D" using low by simp
    show "(0 :: rat) < 1 / 256" by simp
  qed
  then have q: "\<bar>diff / den - Dl / D\<bar> \<le> 3072 / 2 ^ 53" by simp
  have Dpos: "0 < D" using low by simp
  have S: "0 \<le> Dl / D" "Dl / D \<le> 1" using Dlp DlD Dpos by simp_all
  have tiny: "(4000 :: rat) / 2 ^ 53 \<le> 1 / 1000" by simp
  with q S have "\<bar>diff / den\<bar> \<le> 2" by linarith
  with q have "\<bar>s0 - Dl / D\<bar> \<le> 3072 / 2 ^ 53 + 2 / 2 ^ 53" unfolding s0 by (rule fl_near)
  then have s: "\<bar>s0 - Dl / D\<bar> \<le> 3074 / 2 ^ 53" by simp
  then have "\<bar>s0 * 100 - 100 * (Dl / D)\<bar> \<le> 307400 / 2 ^ 53" by linarith
  moreover have "\<bar>s0 * 100\<bar> \<le> 200" using s S tiny by linarith
  ultimately have "\<bar>fmul s0 100 - 100 * (Dl / D)\<bar> \<le> 307400 / 2 ^ 53 + 200 / 2 ^ 53"
    unfolding fmul_def by (rule fl_near)
  moreover have "(307400 :: rat) / 2 ^ 53 + 200 / 2 ^ 53 \<le> 1 / 2 ^ 30" by simp
  ultimately have "\<bar>of_int (Math_round (fmul s0 100)) - 100 * (Dl / D)\<bar> \<le> 1 / 2 + 1 / 2 ^ 30"
    using Math_round_near [of "fmul s0 100"] by linarith
  then show ?thesis unfolding Dl_def D_def L_def .
qed

text \<open>The hue of a sector: a quotient of two spreads, moved by the sector's offset.\<close>

lemma hue_near:
  assumes "0 \<le> m" and "m < M" and "M \<le> 255"
    and "m \<le> a" and "a \<le> M" and "m \<le> b" and "b \<le> M"
    and "0 \<le> k" and "k \<le> 6"
  shows "\<bar>of_int (Math_round (fmul (fdiv (fadd
            (fdiv (fsub (fdiv (of_int a) 255) (fdiv (of_int b) 255))
                  (fsub (fdiv (of_int M) 255) (fdiv (of_int m) 255))) k) 6) 360))
           - 60 * (of_int (a - b) / of_int (M - m) + k)\<bar>
         \<le> 1 / 2 + 1 / 2 ^ 30"
proof -
  define Dl :: rat where "Dl = of_int (M - m) / 255"
  define diff where "diff = fsub (fdiv (of_int M) 255) (fdiv (of_int m) 255)"
  define num where "num = fsub (fdiv (of_int a) 255) (fdiv (of_int b) 255)"
  define q :: rat where "q = of_int (a - b) / of_int (M - m)"
  have ab: "0 \<le> a" "a \<le> 255" and bb: "0 \<le> b" "b \<le> 255" using assms by simp_all
  note fa = byte_fraction [OF ab]
  note fb = byte_fraction [OF bb]
  note dn = diff_near [OF assms(1-3), folded diff_def Dl_def]
  have e: "(of_int (a - b) :: rat) / 255 = of_int a / 255 - of_int b / 255"
    by (simp add: diff_divide_distrib)
  have "\<bar>(fdiv (of_int a) 255 - fdiv (of_int b) 255) - of_int (a - b) / 255\<bar> \<le> 2 / 2 ^ 53"
    unfolding e using fa(3) fb(3) by linarith
  moreover have "\<bar>fdiv (of_int a) 255 - fdiv (of_int b) 255\<bar> \<le> 1" using fa fb by linarith
  ultimately have "\<bar>num - of_int (a - b) / 255\<bar> \<le> 2 / 2 ^ 53 + 1 / 2 ^ 53"
    unfolding num_def fsub_def by (rule fl_near)
  then have num: "\<bar>num - of_int (a - b) / 255\<bar> \<le> 3 / 2 ^ 53" by simp
  have "\<bar>a - b\<bar> \<le> M - m" using assms by linarith
  then have "(of_int \<bar>a - b\<bar> :: rat) \<le> of_int (M - m)" by (simp only: of_int_le_iff)
  then have bound: "\<bar>of_int (a - b) :: rat\<bar> \<le> of_int (M - m)" by simp
  then have nb: "\<bar>(of_int (a - b) :: rat) / 255\<bar> \<le> Dl" by (simp add: Dl_def)
  have Dpos: "(0 :: rat) < of_int (M - m)" using assms by simp
  have quot: "of_int (a - b) / 255 / Dl = q" by (simp add: Dl_def q_def del: of_int_diff)
  have qb: "\<bar>q\<bar> \<le> 1" unfolding q_def using bound Dpos by simp
  have "\<bar>num / diff - of_int (a - b) / 255 / Dl\<bar> \<le> 2 * (3 / 2 ^ 53) / (1 / 256)"
  proof (rule div_near)
    show "\<bar>num - of_int (a - b) / 255\<bar> \<le> 3 / 2 ^ 53" by (rule num)
    show "\<bar>diff - Dl\<bar> \<le> 3 / 2 ^ 53" by (rule dn(1))
    show "\<bar>(of_int (a - b) :: rat) / 255\<bar> \<le> Dl" by (rule nb)
    show "1 / 256 \<le> diff" by (rule dn(3))
    show "1 / 256 \<le> Dl" using dn(2) by simp
    show "(0 :: rat) < 1 / 256" by simp
  qed
  then have r: "\<bar>num / diff - q\<bar> \<le> 1536 / 2 ^ 53" unfolding quot by simp
  have tiny: "(4000 :: rat) / 2 ^ 53 \<le> 1 / 1000" by simp
  have "\<bar>num / diff\<bar> \<le> 2" using r qb tiny by linarith
  with r have "\<bar>fdiv num diff - q\<bar> \<le> 1536 / 2 ^ 53 + 2 / 2 ^ 53"
    unfolding fdiv_def by (rule fl_near)
  then have f: "\<bar>fdiv num diff - q\<bar> \<le> 1538 / 2 ^ 53" by simp
  define z where "z = fadd (fdiv num diff) k"
  define T where "T = q + k"
  have Tb: "\<bar>T\<bar> \<le> 7" unfolding T_def using qb assms(8,9) by linarith
  have "\<bar>(fdiv num diff + k) - T\<bar> \<le> 1538 / 2 ^ 53" unfolding T_def using f by linarith
  moreover have "\<bar>fdiv num diff + k\<bar> \<le> 8" unfolding T_def using f qb assms(8,9) tiny by linarith
  ultimately have "\<bar>z - T\<bar> \<le> 1538 / 2 ^ 53 + 8 / 2 ^ 53"
    unfolding z_def fadd_def by (rule fl_near)
  then have z: "\<bar>z - T\<bar> \<le> 1548 / 2 ^ 53" by simp
  have zb: "\<bar>z\<bar> \<le> 8" using z Tb tiny by linarith
  define h0 where "h0 = fdiv z 6"
  have "\<bar>z / 6 - T / 6\<bar> \<le> 258 / 2 ^ 53" using z by linarith
  moreover have "\<bar>z / 6\<bar> \<le> 2" using zb by linarith
  ultimately have "\<bar>h0 - T / 6\<bar> \<le> 258 / 2 ^ 53 + 2 / 2 ^ 53"
    unfolding h0_def fdiv_def by (rule fl_near)
  then have h0: "\<bar>h0 - T / 6\<bar> \<le> 260 / 2 ^ 53" by simp
  have h0b: "\<bar>h0\<bar> \<le> 2" using h0 Tb tiny by linarith
  have "\<bar>h0 * 360 - 60 * T\<bar> \<le> 93600 / 2 ^ 53" using h0 by linarith
  moreover have "\<bar>h0 * 360\<bar> \<le> 720" using h0b by linarith
  ultimately have "\<bar>fmul h0 360 - 60 * T\<bar> \<le> 93600 / 2 ^ 53 + 720 / 2 ^ 53"
    unfolding fmul_def by (rule fl_near)
  moreover have "(93600 :: rat) / 2 ^ 53 + 720 / 2 ^ 53 \<le> 1 / 2 ^ 30" by simp
  ultimately have "\<bar>of_int (Math_round (fmul h0 360)) - 60 * T\<bar> \<le> 1 / 2 + 1 / 2 ^ 30"
    using Math_round_near [of "fmul h0 360"] by linarith
  then show ?thesis unfolding h0_def z_def num_def diff_def T_def q_def .
qed

text \<open>
  The three numbers that \<open>hexToHsl\<close> returns are the exact lightness and saturation in
  percent and the exact hue in degrees, each rounded to a whole number, up to the rounding of
  the operations before.
\<close>

lemma rgbToHsl_near:
  assumes bytes: "0 \<le> R" "R \<le> 255" "0 \<le> G" "G \<le> 255" "0 \<le> B" "B \<le> 255"
  shows "\<bar>of_int (l (rgbToHsl R G B)) - 100 * lightExact R G B\<bar> \<le> 1 / 2 + 1 / 2 ^ 30"
    and "\<bar>of_int (s (rgbToHsl R G B)) - 100 * satExact R G B\<bar> \<le> 1 / 2 + 1 / 2 ^ 30"
    and "\<bar>of_int (h (rgbToHsl R G B)) - 60 * hueExact R G B\<bar> \<le> 1 / 2 + 1 / 2 ^ 30"
proof -
  define M where "M = max R (max G B)"
  define m where "m = min R (min G B)"
  have b: "0 \<le> m" "m \<le> M" "M \<le> 255" using bytes by (simp_all add: M_def m_def)
  have in_range: "m \<le> R" "R \<le> M" "m \<le> G" "G \<le> M" "m \<le> B" "B \<le> M"
    by (simp_all add: M_def m_def)
  have most: "M \<noteq> R \<Longrightarrow> M \<noteq> G \<Longrightarrow> M = B" unfolding M_def by linarith
  note run = rgbToHsl_tests [OF bytes, unfolded Let_def, folded M_def m_def]
  have zero: "Math_round (fmul 0 n) = 0" for n by (simp add: fmul_def Math_round_def)
  show "\<bar>of_int (l (rgbToHsl R G B)) - 100 * lightExact R G B\<bar> \<le> 1 / 2 + 1 / 2 ^ 30"
    unfolding run lightExact_def M_def [symmetric] m_def [symmetric]
    using lightness_near(5) [OF b] by simp
  show "\<bar>of_int (s (rgbToHsl R G B)) - 100 * satExact R G B\<bar> \<le> 1 / 2 + 1 / 2 ^ 30"
  proof (cases "M = m")
    case True
    then show ?thesis
      unfolding run satExact_def M_def [symmetric] m_def [symmetric] by (simp add: zero)
  next
    case False
    then have "m < M" using b by simp
    from saturation_near [OF b(1) this b(3)] False show ?thesis
      unfolding run satExact_def chromaExact_def lightExact_def M_def [symmetric] m_def [symmetric]
      by simp
  qed
  show "\<bar>of_int (h (rgbToHsl R G B)) - 60 * hueExact R G B\<bar> \<le> 1 / 2 + 1 / 2 ^ 30"
  proof (cases "M = m")
    case True
    then show ?thesis
      unfolding run hueExact_def Let_def M_def [symmetric] m_def [symmetric] by (simp add: zero)
  next
    case False
    then have lt: "m < M" using b by simp
    note hn = hue_near [OF b(1) lt b(3)]
    consider "M = R" "G < B" | "M = R" "\<not> G < B" | "M \<noteq> R" "M = G" | "M \<noteq> R" "M \<noteq> G"
      by blast
    then show ?thesis
    proof cases
      case 1
      with hn [of G B 6] in_range False show ?thesis
        unfolding run hueExact_def Let_def M_def [symmetric] m_def [symmetric] by simp
    next
      case 2
      with hn [of G B 0] in_range False show ?thesis
        unfolding run hueExact_def Let_def M_def [symmetric] m_def [symmetric] by simp
    next
      case 3
      with hn [of B R 2] in_range False show ?thesis
        unfolding run hueExact_def Let_def M_def [symmetric] m_def [symmetric] by simp
    next
      case 4
      with hn [of R G 4] in_range False show ?thesis
        unfolding run hueExact_def Let_def M_def [symmetric] m_def [symmetric] by simp
    qed
  qed
qed

text \<open>Each channel is 255 times its shade on the exact wheel.\<close>

lemma exact_wheel:
  assumes bytes: "0 \<le> R" "R \<le> 255" "0 \<le> G" "G \<le> 255" "0 \<le> B" "B \<le> 255"
  shows "of_int R = 255 * shade (lightExact R G B) (chromaOf (lightExact R G B) (satExact R G B))
                             (waveR (hueExact R G B))"
    and "of_int G = 255 * shade (lightExact R G B) (chromaOf (lightExact R G B) (satExact R G B))
                             (waveG (hueExact R G B))"
    and "of_int B = 255 * shade (lightExact R G B) (chromaOf (lightExact R G B) (satExact R G B))
                             (waveB (hueExact R G B))"
proof -
  define M where "M = max R (max G B)"
  define m where "m = min R (min G B)"
  have sh: "255 * shade (lightExact R G B) (chromaOf (lightExact R G B) (satExact R G B)) w
      = of_int m + w * of_int (M - m)" for w
    unfolding chroma_exact [OF bytes] shade_exact M_def m_def by simp
  have "of_int R = of_int m + waveR (hueExact R G B) * (of_int (M - m) :: rat)
      \<and> of_int G = of_int m + waveG (hueExact R G B) * (of_int (M - m) :: rat)
      \<and> of_int B = of_int m + waveB (hueExact R G B) * (of_int (M - m) :: rat)"
  proof (cases "M = m")
    case True
    have "m \<le> R" "R \<le> M" "m \<le> G" "G \<le> M" "m \<le> B" "B \<le> M"
      by (simp_all add: M_def m_def)
    with True have "R = m" "G = m" "B = m" by simp_all
    with True show ?thesis by simp
  next
    case False
    then have "max R (max G B) \<noteq> min R (min G B)" by (simp add: M_def m_def)
    from hue_exact_waves [OF this] show ?thesis
      unfolding M_def [symmetric] m_def [symmetric] by simp
  qed
  then show
    "of_int R = 255 * shade (lightExact R G B) (chromaOf (lightExact R G B) (satExact R G B))
                             (waveR (hueExact R G B))"
    "of_int G = 255 * shade (lightExact R G B) (chromaOf (lightExact R G B) (satExact R G B))
                             (waveG (hueExact R G B))"
    "of_int B = 255 * shade (lightExact R G B) (chromaOf (lightExact R G B) (satExact R G B))
                             (waveB (hueExact R G B))"
    unfolding sh by simp_all
qed

lemma hue_exact_range:
  shows "0 \<le> hueExact R G B" and "hueExact R G B \<le> 6"
proof -
  have "0 \<le> hueExact R G B \<and> hueExact R G B \<le> 6"
  proof (cases "max R (max G B) = min R (min G B)")
    case True
    then show ?thesis by (simp add: hueExact_def)
  next
    case False
    from hue_exact_waves [OF this] show ?thesis by simp
  qed
  then show "0 \<le> hueExact R G B" and "hueExact R G B \<le> 6" by simp_all
qed


section \<open>The round trip\<close>

lemma chromaOf_range:
  assumes "0 \<le> L" and "L \<le> 1" and "0 \<le> S" and "S \<le> 1"
  shows "0 \<le> chromaOf L S" and "chromaOf L S \<le> 1 - \<bar>2 * L - 1\<bar>" and "chromaOf L S \<le> 1"
proof -
  have a: "0 \<le> 1 - \<bar>2 * L - 1\<bar>" "1 - \<bar>2 * L - 1\<bar> \<le> 1" using assms by linarith+
  show "0 \<le> chromaOf L S" unfolding chromaOf_def using a assms by simp
  have "(1 - \<bar>2 * L - 1\<bar>) * S \<le> (1 - \<bar>2 * L - 1\<bar>) * 1"
    using a assms by (intro mult_left_mono) simp_all
  then show "chromaOf L S \<le> 1 - \<bar>2 * L - 1\<bar>" by (simp add: chromaOf_def)
  with a show "chromaOf L S \<le> 1" by linarith
qed

lemma shade_range:
  assumes "0 \<le> L" and "L \<le> 1" and "0 \<le> c" and "c \<le> 1 - \<bar>2 * L - 1\<bar>"
    and "0 \<le> w" and "w \<le> 1"
  shows "0 \<le> shade L c w" and "shade L c w \<le> 1"
proof -
  have "\<bar>w - 1 / 2\<bar> \<le> 1 / 2" using assms by linarith
  then have "c * \<bar>w - 1 / 2\<bar> \<le> c * (1 / 2)"
    using assms(3) by (intro mult_left_mono)
  moreover have "\<bar>c * (w - 1 / 2)\<bar> = c * \<bar>w - 1 / 2\<bar>"
    using assms(3) by (simp add: abs_mult)
  ultimately have "\<bar>c * (w - 1 / 2)\<bar> \<le> c * (1 / 2)" by simp
  then show "0 \<le> shade L c w" "shade L c w \<le> 1"
    unfolding shade_def using assms by linarith+
qed

text \<open>
  How far the rounding of hue, saturation and lightness to whole numbers moves a channel:
  at most \<open>255 (1/200 + 3/400 + 1/120)\<close>, a little over 5.3.
\<close>

lemma shade_quantised:
  fixes L S w w' :: rat
  assumes L: "0 \<le> L" "L \<le> 1" and S: "0 \<le> S" "S \<le> 1"
    and l: "\<bar>of_int l1 - 100 * L\<bar> \<le> 1 / 2 + 1 / 2 ^ 30" and lb: "0 \<le> l1" "l1 \<le> 100"
    and s: "\<bar>of_int s1 - 100 * S\<bar> \<le> 1 / 2 + 1 / 2 ^ 30"
    and w: "\<bar>w' - w\<bar> \<le> (1 / 2 + 1 / 2 ^ 30) / 60" "0 \<le> w'" "w' \<le> 1"
  shows "\<bar>255 * shade (of_int l1 / 100) (chromaOf (of_int l1 / 100) (of_int s1 / 100)) w'
           - 255 * shade L (chromaOf L S) w\<bar> \<le> 532 / 100"
proof -
  define e :: rat where "e = 1 / 2 + 1 / 2 ^ 30"
  define lam :: rat where "lam = of_int l1 / 100"
  define sig :: rat where "sig = of_int s1 / 100"
  define a where "a = 1 - \<bar>2 * lam - 1\<bar>"
  define a' where "a' = 1 - \<bar>2 * L - 1\<bar>"
  have e: "0 \<le> e" "255 * (e / 24) \<le> 532 / 100" by (simp_all add: e_def)
  have lam: "0 \<le> lam" "lam \<le> 1" using lb by (simp_all add: lam_def)
  have l': "\<bar>of_int l1 - 100 * L\<bar> \<le> e" using l by (simp add: e_def)
  have s': "\<bar>of_int s1 - 100 * S\<bar> \<le> e" using s by (simp add: e_def)
  have w': "\<bar>w' - w\<bar> \<le> e / 60" using w(1) by (simp add: e_def)
  have A: "\<bar>lam - L\<bar> \<le> e / 100" using l' unfolding lam_def by linarith
  have Sg: "\<bar>sig - S\<bar> \<le> e / 100" using s' unfolding sig_def by linarith
  have ab: "\<bar>a\<bar> \<le> 1" unfolding a_def using lam by linarith
  have a'b: "0 \<le> a'" "a' \<le> 1" unfolding a'_def using L by linarith+
  have aa: "\<bar>a - a'\<bar> \<le> 2 * (e / 100)" unfolding a_def a'_def using A by linarith
  have "\<bar>a * sig - a' * S\<bar> \<le> 1 * (e / 100) + 1 * (2 * (e / 100))"
  proof (rule mul_near)
    show "\<bar>a - a'\<bar> \<le> 2 * (e / 100)" by (rule aa)
    show "\<bar>sig - S\<bar> \<le> e / 100" by (rule Sg)
    show "\<bar>a\<bar> \<le> 1" by (rule ab)
    show "\<bar>S\<bar> \<le> 1" using S by simp
  qed
  then have K: "\<bar>chromaOf lam sig - chromaOf L S\<bar> \<le> 3 * (e / 100)"
    by (simp add: chromaOf_def a_def a'_def)
  note D = chromaOf_range [OF L S]
  have "\<bar>w' - 1 / 2\<bar> \<le> 1 / 2" using w by linarith
  with K have "\<bar>chromaOf lam sig - chromaOf L S\<bar> * \<bar>w' - 1 / 2\<bar> \<le> 3 * (e / 100) * (1 / 2)"
    by (intro mult_mono) (use e in simp_all)
  then have t2: "\<bar>(chromaOf lam sig - chromaOf L S) * (w' - 1 / 2)\<bar> \<le> 3 * (e / 100) * (1 / 2)"
    by (simp add: abs_mult)
  have "\<bar>chromaOf L S\<bar> * \<bar>w' - w\<bar> \<le> 1 * (e / 60)"
    using D w' by (intro mult_mono) simp_all
  then have t3: "\<bar>chromaOf L S * (w' - w)\<bar> \<le> e / 60" by (simp add: abs_mult)
  have split: "shade lam (chromaOf lam sig) w' - shade L (chromaOf L S) w
      = (lam - L) + (chromaOf lam sig - chromaOf L S) * (w' - 1 / 2) + chromaOf L S * (w' - w)"
    by (simp add: shade_def algebra_simps)
  have "\<bar>shade lam (chromaOf lam sig) w' - shade L (chromaOf L S) w\<bar> \<le> e / 24"
    unfolding split using A t2 t3 by linarith
  then have "\<bar>255 * shade lam (chromaOf lam sig) w' - 255 * shade L (chromaOf L S) w\<bar>
      \<le> 255 * (e / 24)" by linarith
  with e(2) show ?thesis unfolding lam_def sig_def by linarith
qed

lemma channel_round_trip:
  assumes "\<bar>y - 255 * sh\<bar> \<le> 1 / 2 ^ 40" and "\<bar>255 * sh - of_int X\<bar> \<le> 532 / 100"
    and "0 \<le> sh" and "sh \<le> 1"
  shows "\<bar>Math_round y - X\<bar> \<le> 5" and "0 \<le> Math_round y" and "Math_round y \<le> 255"
proof -
  have tiny: "(1 :: rat) / 2 ^ 40 \<le> 1 / 100" by simp
  have "\<bar>y - of_int X\<bar> < 5 + 1 / 2" using assms(1,2) tiny by linarith
  then have "\<bar>y - of_int X\<bar> < of_int 5 + 1 / 2" by simp
  then show "\<bar>Math_round y - X\<bar> \<le> 5" by (rule Math_round_within)
  have r: "\<bar>of_int (Math_round y) - y\<bar> \<le> 1 / 2" by (rule Math_round_near)
  have "(-1 :: rat) < of_int (Math_round y)" using r assms(1,3) tiny by linarith
  then have "- 1 < Math_round y" by (metis of_int_less_iff of_int_minus of_int_1)
  then show "0 \<le> Math_round y" by simp
  have "of_int (Math_round y) < (256 :: rat)" using r assms(1,4) tiny by linarith
  then have "Math_round y < 256" by (metis of_int_less_iff of_int_numeral)
  then show "Math_round y \<le> 255" by simp
qed


lemma shade_mirror: "shade L c (1 - w) = 2 * L - shade L c w"
  by (simp add: shade_def algebra_simps)

text \<open>
  The numbers that \<open>hexToHsl\<close> returns, put back on the exact wheel, give each channel
  to within 5.32.
\<close>

lemma quantised_wheel_near:
  assumes bytes: "0 \<le> R" "R \<le> 255" "0 \<le> G" "G \<le> 255" "0 \<le> B" "B \<le> 255"
  defines "v \<equiv> rgbToHsl R G B"
  defines "lam \<equiv> of_int (l v) / 100"
  defines "chroma \<equiv> chromaOf (of_int (l v) / 100) (of_int (s v) / 100)"
  defines "tau \<equiv> of_int (h v) / 60"
  shows "\<bar>255 * shade lam chroma (waveR tau) - of_int R\<bar> \<le> 532 / 100"
    and "\<bar>255 * shade lam chroma (waveG tau) - of_int G\<bar> \<le> 532 / 100"
    and "\<bar>255 * shade lam chroma (waveB tau) - of_int B\<bar> \<le> 532 / 100"
    and "0 \<le> lam" and "lam \<le> 1" and "0 \<le> chroma" and "chroma \<le> 1 - \<bar>2 * lam - 1\<bar>"
    and "0 \<le> tau" and "tau \<le> 6"
    and "\<bar>255 * shade lam chroma (1 - waveR tau)
           - (of_int (max R (max G B) + min R (min G B)) - of_int R)\<bar> \<le> 532 / 100"
    and "\<bar>255 * shade lam chroma (1 - waveG tau)
           - (of_int (max R (max G B) + min R (min G B)) - of_int G)\<bar> \<le> 532 / 100"
    and "\<bar>255 * shade lam chroma (1 - waveB tau)
           - (of_int (max R (max G B) + min R (min G B)) - of_int B)\<bar> \<le> 532 / 100"
proof -
  define L where "L = lightExact R G B"
  define S where "S = satExact R G B"
  define T where "T = hueExact R G B"
  have rng: "0 \<le> h v" "h v \<le> 360" "0 \<le> s v" "s v \<le> 100" "0 \<le> l v" "l v \<le> 100"
    using rgbToHsl_range [OF bytes] by (simp_all add: v_def)
  note near = rgbToHsl_near [OF bytes, folded v_def L_def S_def T_def]
  note wheel = exact_wheel [OF bytes, folded L_def S_def T_def]
  have Lr: "0 \<le> L" "L \<le> 1" unfolding L_def by (rule light_exact_range [OF bytes])+
  have Sr: "0 \<le> S" "S \<le> 1" unfolding S_def by (rule sat_exact_range [OF bytes])+
  define e :: rat where "e = 1 / 2 + 1 / 2 ^ 30"
  have "\<bar>of_int (h v) - 60 * T\<bar> \<le> e" using near(3) by (simp add: e_def)
  then have "\<bar>tau - T\<bar> \<le> e / 60" unfolding tau_def by linarith
  then have pos: "\<bar>tau - T\<bar> \<le> (1 / 2 + 1 / 2 ^ 30) / 60" by (simp add: e_def)
  show lamr: "0 \<le> lam" "lam \<le> 1" using rng by (simp_all add: lam_def)
  have sigr: "(0 :: rat) \<le> of_int (s v) / 100" "(of_int (s v) :: rat) / 100 \<le> 1"
    using rng by simp_all
  have chroma': "chroma = chromaOf lam (of_int (s v) / 100)" by (simp add: chroma_def lam_def)
  show "0 \<le> chroma" "chroma \<le> 1 - \<bar>2 * lam - 1\<bar>"
    unfolding chroma' by (rule chromaOf_range [OF lamr sigr])+
  show "0 \<le> tau" "tau \<le> 6" using rng by (simp_all add: tau_def)
  have q: "\<bar>255 * shade lam chroma w' - 255 * shade L (chromaOf L S) w\<bar> \<le> 532 / 100"
    if "\<bar>w' - w\<bar> \<le> (1 / 2 + 1 / 2 ^ 30) / 60" "0 \<le> w'" "w' \<le> 1" for w w'
    unfolding lam_def chroma_def
    by (rule shade_quantised [OF Lr Sr near(1) rng(5,6) near(2) that])
  show "\<bar>255 * shade lam chroma (waveR tau) - of_int R\<bar> \<le> 532 / 100"
    unfolding wheel(1) using wave_lipschitz(1) [of tau T] pos wave_range(1,2) [of tau]
    by (intro q) linarith+
  show "\<bar>255 * shade lam chroma (waveG tau) - of_int G\<bar> \<le> 532 / 100"
    unfolding wheel(2) using wave_lipschitz(2) [of tau T] pos wave_range(3,4) [of tau]
    by (intro q) linarith+
  show "\<bar>255 * shade lam chroma (waveB tau) - of_int B\<bar> \<le> 532 / 100"
    unfolding wheel(3) using wave_lipschitz(3) [of tau T] pos wave_range(5,6) [of tau]
    by (intro q) linarith+
  have sum: "(of_int (max R (max G B) + min R (min G B)) :: rat) = 255 * (2 * L)"
    by (simp add: L_def lightExact_def)
  have mirror: "of_int (max R (max G B) + min R (min G B)) - 255 * shade L (chromaOf L S) w
      = 255 * shade L (chromaOf L S) (1 - w)" for w
    unfolding sum shade_mirror by simp
  show "\<bar>255 * shade lam chroma (1 - waveR tau)
           - (of_int (max R (max G B) + min R (min G B)) - of_int R)\<bar> \<le> 532 / 100"
    unfolding wheel(1) mirror using wave_lipschitz(1) [of tau T] pos wave_range(1,2) [of tau]
    by (intro q) linarith+
  show "\<bar>255 * shade lam chroma (1 - waveG tau)
           - (of_int (max R (max G B) + min R (min G B)) - of_int G)\<bar> \<le> 532 / 100"
    unfolding wheel(2) mirror using wave_lipschitz(2) [of tau T] pos wave_range(3,4) [of tau]
    by (intro q) linarith+
  show "\<bar>255 * shade lam chroma (1 - waveB tau)
           - (of_int (max R (max G B) + min R (min G B)) - of_int B)\<bar> \<le> 532 / 100"
    unfolding wheel(3) mirror using wave_lipschitz(3) [of tau T] pos wave_range(5,6) [of tau]
    by (intro q) linarith+
qed

text \<open>
  The round trip on the channels: when the hue that \<open>hexToHsl\<close> returns is below 360,
  \<open>hslToHex\<close> computes from the three numbers channels that are bytes again, each within 5
  of the channel it came from.
\<close>

lemma round_trip_channels:
  assumes bytes: "0 \<le> R" "R \<le> 255" "0 \<le> G" "G \<le> 255" "0 \<le> B" "B \<le> 255"
    and hue: "h (rgbToHsl R G B) < 360"
  shows "\<exists>R' G' B'.
      hslToRgb (h (rgbToHsl R G B)) (s (rgbToHsl R G B)) (l (rgbToHsl R G B)) = (R', G', B')
    \<and> \<bar>R' - R\<bar> \<le> 5 \<and> \<bar>G' - G\<bar> \<le> 5 \<and> \<bar>B' - B\<bar> \<le> 5
    \<and> 0 \<le> R' \<and> R' \<le> 255 \<and> 0 \<le> G' \<and> G' \<le> 255 \<and> 0 \<le> B' \<and> B' \<le> 255"
proof -
  define v where "v = rgbToHsl R G B"
  define lam :: rat where "lam = of_int (l v) / 100"
  define chroma where "chroma = chromaOf (of_int (l v) / 100) (of_int (s v) / 100)"
  define tau :: rat where "tau = of_int (h v) / 60"
  have rng: "0 \<le> h v" "0 \<le> s v" "s v \<le> 100" "0 \<le> l v" "l v \<le> 100"
    using rgbToHsl_range [OF bytes] by (simp_all add: v_def)
  have hv: "h v < 360" using hue by (simp add: v_def)
  note q = quantised_wheel_near [OF bytes, folded v_def, folded lam_def chroma_def tau_def]
  from hslToRgb_near [OF rng(1) hv rng(2-5)] obtain yr yg yb where
    run: "hslToRgb (h v) (s v) (l v) = (Math_round yr, Math_round yg, Math_round yb)"
    and yr: "\<bar>yr - 255 * shade lam chroma (waveR tau)\<bar> \<le> 1 / 2 ^ 40"
    and yg: "\<bar>yg - 255 * shade lam chroma (waveG tau)\<bar> \<le> 1 / 2 ^ 40"
    and yb: "\<bar>yb - 255 * shade lam chroma (waveB tau)\<bar> \<le> 1 / 2 ^ 40"
    unfolding lam_def chroma_def tau_def by blast
  note sr = shade_range [OF q(4-7) wave_range(1,2) [of tau]]
  note sg = shade_range [OF q(4-7) wave_range(3,4) [of tau]]
  note sb = shade_range [OF q(4-7) wave_range(5,6) [of tau]]
  note cr = channel_round_trip [OF yr q(1) sr]
  note cg = channel_round_trip [OF yg q(2) sg]
  note cb = channel_round_trip [OF yb q(3) sb]
  show ?thesis
    unfolding v_def [symmetric] run using cr cg cb by simp
qed

section \<open>Writing and reading a hex string\<close>

lemma hexDigit_hexChar:
  assumes "d < 16"
  shows "hexDigit (hexChar d) = Some (int d)"
proof -
  from assms have "d \<in> set [0..<16]" by simp
  then show ?thesis
    by (auto simp: upt_rec hexChar_def hexDigit_def)
qed

lemma byte_hex:
  assumes "0 \<le> x" and "x \<le> 255"
  shows "padStart2 (toString16 x) = [hexChar (nat x div 16), hexChar (nat x mod 16)]"
proof (cases "nat x < 16")
  case True
  then have "natToHex (nat x) = [hexChar (nat x)]" by (simp add: natToHex.simps)
  with True assms show ?thesis
    by (simp add: padStart2_def toString16_def hexChar_def)
next
  case False
  have "nat x div 16 < 16" using assms by simp
  then have "natToHex (nat x div 16) = [hexChar (nat x div 16)]" by (simp add: natToHex.simps)
  with False have "natToHex (nat x) = [hexChar (nat x div 16), hexChar (nat x mod 16)]"
    by (subst natToHex.simps) simp
  with assms show ?thesis by (simp add: padStart2_def toString16_def)
qed

lemma parse_byte_hex:
  assumes "0 \<le> x" and "x \<le> 255"
  shows "parseInt16 (padStart2 (toString16 x)) = Some x"
proof -
  have q: "nat x div 16 < 16" and r: "nat x mod 16 < 16" using assms by simp_all
  have "int (nat x div 16) * 16 + int (nat x mod 16) = int (nat x)"
    by (simp add: zdiv_int zmod_int)
  then show ?thesis
    using assms
    by (simp add: byte_hex parseInt16_def hexDigit_hexChar [OF q] hexDigit_hexChar [OF r])
qed

lemma hexChannels_rgbToHex:
  assumes "0 \<le> R" "R \<le> 255" "0 \<le> G" "G \<le> 255" "0 \<le> B" "B \<le> 255"
  shows "hexChannels (rgbToHex (R, G, B)) = Some (R, G, B)"
proof -
  have two: "length (padStart2 (toString16 x)) = 2" if "0 \<le> x" "x \<le> 255" for x
    using that by (simp add: byte_hex)
  have "remove1 CHR ''#'' (rgbToHex (R, G, B))
      = padStart2 (toString16 R) @ padStart2 (toString16 G) @ padStart2 (toString16 B)"
    by (simp add: rgbToHex_def)
  then show ?thesis
    using assms two [of R] two [of G] two [of B]
    by (simp add: hexChannels_def substr_def parse_byte_hex)
qed


section \<open>The complement\<close>









subsection \<open>Colours of the round trips\<close>

lemma channels_00AAFF: "hexChannels ''#00AAFF'' = Some (0, 170, 255)"
  by (simp add: channel_eval)

lemma channels_02E9EB: "hexChannels ''#02E9EB'' = Some (2, 233, 235)"
  by (simp add: channel_eval)

lemma hsl_02E9EB: "hexToHsl ''#02E9EB'' = Some \<lparr>h = 181, s = 98, l = 46\<rparr>"
proof -
  have "rgbToHsl 2 233 235 = \<lparr>h = 181, s = 98, l = 46\<rparr>"
    by (simp add: rgbToHsl_def number_eval cong: let_weak_cong)
  then show ?thesis by (simp add: hexToHsl_def channels_02E9EB)
qed

lemmas write_eval = hslToHex_def rgbToHex_def padStart2_def toString16_def natToHex.simps hexChar_def

lemma hex_181_98_46: "hslToHex 181 98 46 = ''#02E4E8''"
proof -
  have "hslToRgb 181 98 46 = (2, 228, 232)"
    by (simp add: hslToRgb_def number_eval cong: let_weak_cong)
  then show ?thesis by (simp add: write_eval)
qed




section \<open>The round trip and the double complement on hex strings\<close>

text \<open>
  Claim C1 as stated fails: \<open>#02E9EB\<close> has the channels 2, 233 and 235, \<open>hexToHsl\<close> returns
  181, 98 and 46 for it, and \<open>hslToHex\<close> of these is \<open>#02E4E8\<close>, with the channels 2, 228 and
  232: green is 5 away and blue 3, more than the 1 of the claim.
\<close>

theorem round_trip_off_by_five:
  "hexChannels ''#02E9EB'' = Some (2, 233, 235)
 \<and> hexToHsl ''#02E9EB'' = Some \<lparr>h = 181, s = 98, l = 46\<rparr>
 \<and> hslToHex 181 98 46 = ''#02E4E8''
 \<and> hexChannels ''#02E4E8'' = Some (2, 228, 232)"
  by (simp add: channels_02E9EB hsl_02E9EB hex_181_98_46) (simp add: channel_eval)

text \<open>
  Claim C1, amended. For every string that \<open>hexToHsl\<close> converts to a hue below 360,
  \<open>hslToHex\<close> of the hue, the saturation and the lightness returned is a hex string again,
  and each of its channels is within 5 of the channel of the string at the start.
\<close>

theorem round_trip_within_five:
  assumes "hexChannels hexstr = Some (R, G, B)"
    and "hexToHsl hexstr = Some v"
    and "h v < 360"
  shows "\<exists>R' G' B'.
      hexChannels (hslToHex (h v) (s v) (l v)) = Some (R', G', B')
    \<and> \<bar>R' - R\<bar> \<le> 5 \<and> \<bar>G' - G\<bar> \<le> 5 \<and> \<bar>B' - B\<bar> \<le> 5"
proof -
  from assms(1,2) have v: "v = rgbToHsl R G B" by (simp add: hexToHsl_def)
  from hexChannels_range [OF assms(1)]
  have bytes: "0 \<le> R" "R \<le> 255" "0 \<le> G" "G \<le> 255" "0 \<le> B" "B \<le> 255" by simp_all
  from round_trip_channels [OF bytes] assms(3) obtain R' G' B' where
    run: "hslToRgb (h v) (s v) (l v) = (R', G', B')"
    and near: "\<bar>R' - R\<bar> \<le> 5" "\<bar>G' - G\<bar> \<le> 5" "\<bar>B' - B\<bar> \<le> 5"
    and b': "0 \<le> R'" "R' \<le> 255" "0 \<le> G'" "G' \<le> 255" "0 \<le> B'" "B' \<le> 255"
    unfolding v by blast
  have "hexChannels (hslToHex (h v) (s v) (l v)) = Some (R', G', B')"
    unfolding hslToHex_def run by (rule hexChannels_rgbToHex [OF b'])
  with near show ?thesis by blast
qed

theorem round_trip_within_five_witness:
  "\<exists>R' G' B'.
      hexChannels (hslToHex 200 100 50) = Some (R', G', B')
    \<and> \<bar>R' - 0\<bar> \<le> 5 \<and> \<bar>G' - 170\<bar> \<le> 5 \<and> \<bar>B' - 255\<bar> \<le> 5"
  using round_trip_within_five [OF channels_00AAFF hsl_00AAFF] by simp




end
